theory Spec2Isabelle
  imports Main "HOL-Library.Char_ord" "HOL-Library.List_Lexorder" "HOL-Library.AList"
    "HOL-Library.Sublist"
begin

section \<open>Python values shared by the four modules\<close>

text \<open>
  Python \<open>str\<close> values are modelled as \<open>string\<close>: lists of characters with code
  points 0..255, compared by code point as Python compares strings.  An optional
  attribute, an absent file and the value \<open>None\<close> are \<open>None\<close> of an option type.
  Exceptions are values of \<open>error\<close>; a function that may raise returns
  \<open>error + 'a\<close> with the exception on the left.
\<close>

datatype error =
    Missing_API_Key          \<comment> \<open>\<open>RuntimeError("Set GOOGLE_API_KEY or GEMINI_API_KEY ...")\<close>\<close>
  | Bucket_Not_Found         \<comment> \<open>\<open>RuntimeError("GCS bucket ... does not exist.")\<close>\<close>
  | Data_Dir_Not_Found       \<comment> \<open>\<open>RuntimeError("data directory not found: ...")\<close>\<close>
  | JSONDecodeError          \<comment> \<open>raised by \<open>json.load\<close> / \<open>json.loads\<close>\<close>
  | Out_Of_Model             \<comment> \<open>a JSON document the ledger model does not cover (see below)\<close>
  | HTTPException nat string \<comment> \<open>\<open>HTTPException(status_code, detail)\<close>\<close>
  | APIError string          \<comment> \<open>any exception raised by an external service\<close>

definition py_or :: "string option \<Rightarrow> string \<Rightarrow> string" where
  \<comment> \<open>\<open>x or d\<close> for an optional string \<open>x\<close>: \<open>None\<close> and \<open>""\<close> are falsy\<close>
  "py_or x d = (case x of None \<Rightarrow> d | Some s \<Rightarrow> if s = [] then d else s)"

text \<open>
  \<open>str.strip()\<close> removes leading and trailing whitespace; below code point 256 Python's
  whitespace characters are 9..13, 28..32, 133 and 160.
\<close>

definition is_py_space :: "char \<Rightarrow> bool" where
  "is_py_space c =
     ((of_char c :: nat) \<in> {9, 10, 11, 12, 13, 28, 29, 30, 31, 32, 133, 160})"

definition strip :: "string \<Rightarrow> string" where
  "strip s = rev (dropWhile is_py_space (rev (dropWhile is_py_space s)))"

text \<open>
  \<open>str.lower()\<close> below code point 256: the letters A..Z and the accented capitals
  192..222 (without the multiplication sign 215) move up by 32.
\<close>

definition lower_char :: "char \<Rightarrow> char" where
  "lower_char c =
     (let n = (of_char c :: nat) in
      if (65 \<le> n \<and> n \<le> 90) \<or> (192 \<le> n \<and> n \<le> 222 \<and> n \<noteq> 215)
      then char_of (n + 32) else c)"

definition lower :: "string \<Rightarrow> string" where
  "lower s = map lower_char s"

definition endswith :: "string \<Rightarrow> string \<Rightarrow> bool" where
  "endswith s suf = (length suf \<le> length s \<and> drop (length s - length suf) s = suf)"

definition ALLOWED_EXT :: "string list" where
  "ALLOWED_EXT = [''.txt'', ''.pdf'', ''.docx'', ''.doc'']"

definition basename :: "string \<Rightarrow> string" where
  \<comment> \<open>\<open>os.path.basename\<close>: what follows the last slash\<close>
  "basename p = rev (takeWhile (\<lambda>c. c \<noteq> CHR ''/'') (rev p))"

definition path_join :: "string \<Rightarrow> string \<Rightarrow> string" where
  \<comment> \<open>\<open>os.path.join\<close> of two POSIX paths\<close>
  "path_join a b =
     (if b \<noteq> [] \<and> hd b = CHR ''/'' then b
      else if a = [] \<or> last a = CHR ''/'' then a @ b
      else a @ ''/'' @ b)"

section \<open>The ledger and its JSON form\<close>

text \<open>
  The ledger is a Python \<open>Dict[str, str]\<close>: an association list in insertion order
  whose keys are distinct.  \<open>state.get(k)\<close> is \<open>map_of state k\<close>, the assignment
  \<open>state[k] = v\<close> is \<open>AList.update k v state\<close>, and two dictionaries are equal in
  Python when their \<open>map_of\<close> agree.
\<close>

type_synonym ledger = "(string \<times> string) list"

subsection \<open>\<open>json.dump(state, f, indent=2, sort_keys=True)\<close>\<close>

text \<open>
  Both indexers write the ledger with the standard library's encoder.  With its default
  \<open>ensure_ascii\<close>, a string is written between double quotes; the quote and the
  backslash get a backslash, the control characters with a short name get that name,
  printable ASCII stays, and every other character below 256 is written as a backslash,
  \<open>u00\<close> and two lower-case hexadecimal digits.
\<close>

definition hexdigit :: "nat \<Rightarrow> char" where
  "hexdigit d = ''0123456789abcdef'' ! d"

definition escape_ascii :: "char \<Rightarrow> string" where
  "escape_ascii c =
     (if c = CHR 0x22 then [CHR 0x5C, CHR 0x22]
      else if c = CHR 0x5C then [CHR 0x5C, CHR 0x5C]
      else if c = CHR 0x08 then [CHR 0x5C, CHR ''b'']
      else if c = CHR 0x0C then [CHR 0x5C, CHR ''f'']
      else if c = CHR 0x0A then [CHR 0x5C, CHR ''n'']
      else if c = CHR 0x0D then [CHR 0x5C, CHR ''r'']
      else if c = CHR 0x09 then [CHR 0x5C, CHR ''t'']
      else if (0x20::nat) \<le> of_char c \<and> (of_char c :: nat) \<le> 0x7E then [c]
      else [CHR 0x5C, CHR ''u'', CHR ''0'', CHR ''0'',
            hexdigit (of_char c div 16), hexdigit (of_char c mod 16)])"

definition encode_basestring_ascii :: "string \<Rightarrow> string" where
  "encode_basestring_ascii s = [CHR 0x22] @ concat (map escape_ascii s) @ [CHR 0x22]"

definition encode_item :: "string \<times> string \<Rightarrow> string" where
  \<comment> \<open>key, the key separator \<open>": "\<close>, value\<close>
  "encode_item kv =
     encode_basestring_ascii (fst kv) @ '': '' @ encode_basestring_ascii (snd kv)"

fun join_items :: "string \<Rightarrow> string list \<Rightarrow> string" where
  "join_items sep [] = []"
| "join_items sep [x] = x"
| "join_items sep (x # y # ys) = x @ sep @ join_items sep (y # ys)"

text \<open>
  The encoder's loop over the items of a dictionary, for \<open>indent=2\<close>: an empty
  dictionary is \<open>{}\<close>; otherwise every item stands on a line of its own, indented by
  two spaces, the items separated by a comma.
\<close>

definition iterencode_dict :: "(string \<times> string) list \<Rightarrow> string" where
  "iterencode_dict items =
     (if items = [] then ''{}''
      else ''{'' @ [CHR 0x0A] @ ''  ''
           @ join_items ('','' @ [CHR 0x0A] @ ''  '') (map encode_item items)
           @ [CHR 0x0A] @ ''}'')"

text \<open>\<open>sort_keys=True\<close>: the items are encoded in the order \<open>sorted(dct.items())\<close>.\<close>

definition json_dumps :: "ledger \<Rightarrow> string" where
  "json_dumps dct = iterencode_dict (sort_key fst dct)"

subsection \<open>\<open>json.load(f)\<close>\<close>

text \<open>
  The standard library's decoder, for the documents a ledger file can hold: a JSON
  object whose values are strings.  The model answers
  \<^item> \<open>Inr d\<close> when the text is such an object, \<open>d\<close> being the dictionary Python builds
    (a repeated key keeps its first position and its last value);
  \<^item> \<open>Inl JSONDecodeError\<close> when the text is not JSON and the decoder raises;
  \<^item> \<open>Inl Out_Of_Model\<close> when the text leaves the model before any syntax error: a
    value that is not a string (Python would return it and break the declared type
    \<open>Dict[str, str]\<close>), or a four-digit escape of a code point above 255.  No
    theorem below says what the program does then.
\<close>

definition is_json_ws :: "char \<Rightarrow> bool" where
  "is_json_ws c = (c = CHR '' '' \<or> c = CHR 0x09 \<or> c = CHR 0x0A \<or> c = CHR 0x0D)"

definition skip_ws :: "string \<Rightarrow> string" where
  "skip_ws s = dropWhile is_json_ws s"

definition hexval :: "char \<Rightarrow> nat option" where
  "hexval c =
     (let n = (of_char c :: nat) in
      if 0x30 \<le> n \<and> n \<le> 0x39 then Some (n - 0x30)
      else if 0x61 \<le> n \<and> n \<le> 0x66 then Some (n - 0x61 + 10)
      else if 0x41 \<le> n \<and> n \<le> 0x46 then Some (n - 0x41 + 10)
      else None)"

definition decode_uXXXX :: "char \<Rightarrow> char \<Rightarrow> char \<Rightarrow> char \<Rightarrow> nat option" where
  "decode_uXXXX a b c d =
     (case (hexval a, hexval b, hexval c, hexval d) of
        (Some w, Some x, Some y, Some z) \<Rightarrow> Some (((w * 16 + x) * 16 + y) * 16 + z)
      | _ \<Rightarrow> None)"

definition BACKSLASH :: "char \<Rightarrow> char option" where
  \<comment> \<open>the decoder's table of one-letter escapes\<close>
  "BACKSLASH e =
     (if e = CHR 0x22 then Some (CHR 0x22)
      else if e = CHR 0x5C then Some (CHR 0x5C)
      else if e = CHR ''/'' then Some (CHR ''/'')
      else if e = CHR ''b'' then Some (CHR 0x08)
      else if e = CHR ''f'' then Some (CHR 0x0C)
      else if e = CHR ''n'' then Some (CHR 0x0A)
      else if e = CHR ''r'' then Some (CHR 0x0D)
      else if e = CHR ''t'' then Some (CHR 0x09)
      else None)"

definition emit :: "char \<Rightarrow> error + string \<times> string \<Rightarrow> error + string \<times> string" where
  "emit c r = (case r of Inl e \<Rightarrow> Inl e | Inr (s, rest) \<Rightarrow> Inr (c # s, rest))"

text \<open>
  \<open>scanstring\<close> reads a string literal from just after its opening quote and returns
  the decoded string with the text after the closing quote.  In the decoder's strict
  mode a raw control character ends the scan with an error.
\<close>

fun scanstring :: "string \<Rightarrow> error + string \<times> string" where
  "scanstring [] = Inl JSONDecodeError"
| "scanstring (c # cs) =
     (if c = CHR 0x22 then Inr ([], cs)
      else if c = CHR 0x5C then
        (case cs of
           [] \<Rightarrow> Inl JSONDecodeError
         | e # r \<Rightarrow>
             if e = CHR ''u'' then
               (case r of
                  h1 # h2 # h3 # h4 # r' \<Rightarrow>
                    (case decode_uXXXX h1 h2 h3 h4 of
                       None \<Rightarrow> Inl JSONDecodeError
                     | Some n \<Rightarrow> if n < 256 then emit (char_of n) (scanstring r')
                                 else Inl Out_Of_Model)
                | _ \<Rightarrow> Inl JSONDecodeError)
             else
               (case BACKSLASH e of
                  None \<Rightarrow> Inl JSONDecodeError
                | Some x \<Rightarrow> emit x (scanstring r)))
      else if (of_char c :: nat) < 0x20 then Inl JSONDecodeError
      else emit c (scanstring cs))"

definition value_start :: "char \<Rightarrow> bool" where
  \<comment> \<open>the first character of a JSON value that is not a string\<close>
  "value_start c = (c \<in> set ''{[-0123456789tfnNI'')"

lemma emit_Inr: "emit c r = Inr (v, rest) \<Longrightarrow> \<exists>v'. r = Inr (v', rest)"
  by (auto simp: emit_def split: sum.splits)

lemma scanstring_length:
  "scanstring s = Inr (v, rest) \<Longrightarrow> length rest < length s"
proof (induction s arbitrary: v rest rule: scanstring.induct)
  case 1
  then show ?case by simp
next
  case (2 c cs)
  show ?case
  proof (cases "c = CHR 0x22")
    case True
    with "2.prems" show ?thesis by simp
  next
    case q: False
    show ?thesis
    proof (cases "c = CHR 0x5C")
      case True
      note bs = this
      from "2.prems" q bs obtain e r where cs: "cs = e # r"
        by (cases cs) auto
      show ?thesis
      proof (cases "e = CHR ''u''")
        case True
        from "2.prems" q bs cs True obtain h1 h2 h3 h4 r'
          where r: "r = h1 # h2 # h3 # h4 # r'"
          by (auto split: list.splits)
        from "2.prems" q bs cs True r obtain n
          where n: "decode_uXXXX h1 h2 h3 h4 = Some n" "n < 256"
          by (auto split: option.splits if_splits)
        with "2.prems" q bs cs True r obtain v' where "scanstring r' = Inr (v', rest)"
          by (auto dest: emit_Inr)
        from "2.IH"(1)[OF q bs cs True r refl refl refl n(1) n(2) this] r cs
        show ?thesis by simp
      next
        case False
        from "2.prems" q bs cs False obtain x where x: "BACKSLASH e = Some x"
          by (auto split: option.splits)
        with "2.prems" q bs cs False obtain v' where "scanstring r = Inr (v', rest)"
          by (auto dest: emit_Inr)
        from "2.IH"(2)[OF q bs cs False x this] cs show ?thesis by simp
      qed
    next
      case False
      with "2.prems" q have lt: "\<not> (of_char c :: nat) < 0x20"
        by (auto split: if_splits)
      with "2.prems" q False obtain v' where "scanstring cs = Inr (v', rest)"
        by (auto dest: emit_Inr)
      from "2.IH"(3)[OF q False lt this] show ?thesis by simp
    qed
  qed
qed

lemma skip_ws_length: "length (skip_ws s) \<le> length s"
  by (simp add: skip_ws_def length_dropWhile_le)

lemma skip_ws_Cons_length: "skip_ws s = c # r \<Longrightarrow> length r < length s"
  using skip_ws_length [of s] by simp

text \<open>
  The members of an object, from just after the opening quote of a key: key, colon,
  value, then a closing brace or a comma and the next key.  Whitespace may stand
  around every token.
\<close>

function parse_members :: "string \<Rightarrow> error + (string \<times> string) list \<times> string" where
  "parse_members s =
     (case scanstring s of
        Inl e \<Rightarrow> Inl e
      | Inr (key, s1) \<Rightarrow>
          (case skip_ws s1 of
             [] \<Rightarrow> Inl JSONDecodeError
           | c1 # s2 \<Rightarrow>
               if c1 \<noteq> CHR '':'' then Inl JSONDecodeError
               else
                 (case skip_ws s2 of
                    [] \<Rightarrow> Inl JSONDecodeError
                  | c2 # s3 \<Rightarrow>
                      if c2 \<noteq> CHR 0x22 then
                        (if value_start c2 then Inl Out_Of_Model else Inl JSONDecodeError)
                      else
                        (case scanstring s3 of
                           Inl e \<Rightarrow> Inl e
                         | Inr (val, s4) \<Rightarrow>
                             (case skip_ws s4 of
                                [] \<Rightarrow> Inl JSONDecodeError
                              | c3 # s5 \<Rightarrow>
                                  if c3 = CHR ''}'' then Inr ([(key, val)], s5)
                                  else if c3 \<noteq> CHR '','' then Inl JSONDecodeError
                                  else
                                    (case skip_ws s5 of
                                       [] \<Rightarrow> Inl JSONDecodeError
                                     | c4 # s6 \<Rightarrow>
                                         if c4 \<noteq> CHR 0x22 then Inl JSONDecodeError
                                         else
                                           (case parse_members s6 of
                                              Inl e \<Rightarrow> Inl e
                                            | Inr (ps, rest) \<Rightarrow>
                                                Inr ((key, val) # ps, rest))))))))"
  by pat_completeness auto
termination
proof (relation "measure length")
  show "wf (measure length)" by simp
next
  fix s x2 key s1 c1 s2 c2 s3 y2 val s4 c3 s5 c4 s6
  assume "scanstring s = Inr x2" "(key, s1) = x2" "skip_ws s1 = c1 # s2"
    "skip_ws s2 = c2 # s3" "scanstring s3 = Inr y2" "(val, s4) = y2"
    "skip_ws s4 = c3 # s5" "skip_ws s5 = c4 # s6"
  then have "length s1 < length s" "length s2 < length s1" "length s3 < length s2"
    "length s4 < length s3" "length s5 < length s4" "length s6 < length s5"
    by (auto dest: scanstring_length skip_ws_Cons_length)
  then show "(s6, s) \<in> measure length" by simp
qed

declare parse_members.simps [simp del]

definition py_dict :: "(string \<times> string) list \<Rightarrow> ledger" where
  \<comment> \<open>\<open>dict(pairs)\<close>\<close>
  "py_dict pairs = foldl (\<lambda>d kv. AList.update (fst kv) (snd kv) d) [] pairs"

definition finish_decode :: "(string \<times> string) list \<Rightarrow> string \<Rightarrow> error + ledger" where
  \<comment> \<open>after the closing brace only whitespace may follow (else: extra data)\<close>
  "finish_decode pairs rest =
     (if skip_ws rest = [] then Inr (py_dict pairs) else Inl JSONDecodeError)"

definition json_loads :: "string \<Rightarrow> error + ledger" where
  "json_loads s =
     (case skip_ws s of
        [] \<Rightarrow> Inl JSONDecodeError
      | c # r \<Rightarrow>
          if c = CHR ''{'' then
            (case skip_ws r of
               [] \<Rightarrow> Inl JSONDecodeError
             | c1 # r1 \<Rightarrow>
                 if c1 = CHR ''}'' then finish_decode [] r1
                 else if c1 \<noteq> CHR 0x22 then Inl JSONDecodeError
                 else
                   (case parse_members r1 of
                      Inl e \<Rightarrow> Inl e
                    | Inr (pairs, rest) \<Rightarrow> finish_decode pairs rest))
          else if c = CHR 0x22 \<or> value_start c then Inl Out_Of_Model
          else Inl JSONDecodeError)"

section \<open>The File Search service and the effects of a run\<close>

text \<open>
  The client of the external service, as the indexers use it:
  \<open>file_search_stores.create\<close> (display name to store name),
  \<open>file_search_stores.upload_to_file_search_store\<close> (file path, store name, display
  name to an operation), \<open>operations.get\<close> and the operation's flag \<open>done\<close>, read
  with \<open>getattr(op, "done", False)\<close>.  Each call may raise.  The type \<open>'op\<close> of
  operations is left open.
\<close>

record 'op service =
  create_store :: "string \<Rightarrow> error + string"
  upload_to_file_search_store :: "string \<Rightarrow> string \<Rightarrow> string \<Rightarrow> error + 'op"
  operations_get :: "'op \<Rightarrow> error + 'op"
  op_done :: "'op \<Rightarrow> bool"

text \<open>
  What a run does to the outside, in the order it happens: a store is created, a file is
  uploaded (path, store name, display name), the ledger is written (its text).
\<close>

datatype effect =
    Create_Store string
  | Upload string string string
  | Save_Index_State string

text \<open>The lines \<open>[NEW]\<close>, \<open>[CHANGED]\<close> and \<open>[SKIP]\<close> that the detection loop prints.\<close>

datatype label = NEW | CHANGED | SKIP

text \<open>
  The polling loop \<open>while not getattr(op, "done", False): time.sleep(2); op =
  client.operations.get(op)\<close>.  It has no bound: an operation that never reports
  \<open>done\<close> keeps the loop running, which is the value \<open>None\<close>.  The sleep is not
  modelled.
\<close>

partial_function (option) wait_done :: "'op service \<Rightarrow> 'op \<Rightarrow> (error + 'op) option" where
  "wait_done client operation =
     (if op_done client operation then Some (Inr operation)
      else (case operations_get client operation of
              Inl e \<Rightarrow> Some (Inl e)
            | Inr operation' \<Rightarrow> wait_done client operation'))"

declare wait_done.simps [code]

text \<open>
  What both indexers read from and add to their surroundings: the two environment
  variables holding the API key, the effects so far and the classification lines
  printed so far.
\<close>

record env =
  GOOGLE_API_KEY :: "string option"
  GEMINI_API_KEY :: "string option"
  effects :: "effect list"
  printed :: "(label \<times> string) list"

definition make_client :: "'a env_scheme \<Rightarrow> error + unit" where
  \<comment> \<open>\<open>make_client\<close> / \<open>make_genai_client\<close>\<close>
  "make_client w =
     (let api_key = py_or (GOOGLE_API_KEY w) (py_or (GEMINI_API_KEY w) [])
      in if api_key = [] then Inl Missing_API_Key else Inr ())"

section \<open>The local indexer (index\_create\_local.py)\<close>

text \<open>
  The working directory holds \<open>.store_name\<close>, \<open>.indexed_files.json\<close> (each absent or
  a text) and the directory \<open>data\<close> (absent, or its entries in \<open>os.listdir\<close> order).
\<close>

record dir_entry =
  entry_name :: string
  entry_is_file :: bool
  entry_contents :: string

record local_world = env +
  cwd :: string
  store_name_file :: "string option"
  index_state_file :: "string option"
  data_dir :: "dir_entry list option"

definition load_index_state :: "'a local_world_scheme \<Rightarrow> error + ledger" where
  "load_index_state w =
     (case index_state_file w of
        None \<Rightarrow> Inr []
      | Some f \<Rightarrow> json_loads f)"

definition save_index_state :: "ledger \<Rightarrow> local_world \<Rightarrow> local_world" where
  "save_index_state state w =
     (let f = json_dumps state
      in w\<lparr>index_state_file := Some f, effects := effects w @ [Save_Index_State f]\<rparr>)"

definition load_or_create_store_local ::
  "'op service \<Rightarrow> string \<Rightarrow> local_world \<Rightarrow> (error + string) \<times> local_world" where
  "load_or_create_store_local client display_name w =
     (let existing = (case store_name_file w of None \<Rightarrow> [] | Some f \<Rightarrow> strip f)
      in if existing \<noteq> [] then (Inr existing, w)
         else
           (let w1 = w\<lparr>effects := effects w @ [Create_Store display_name]\<rparr>
            in case create_store client display_name of
                 Inl e \<Rightarrow> (Inl e, w1)
               | Inr store_name \<Rightarrow>
                   (Inr store_name, w1\<lparr>store_name_file := Some store_name\<rparr>)))"

text \<open>
  Step 1 of \<open>incremental_index\<close>: the loop over \<open>os.listdir(data_dir)\<close>.  \<open>sha256\<close>
  is the digest \<open>file_hash\<close> computes from a file's bytes; \<open>out\<close> collects the printed
  lines and \<open>new_or_changed\<close> the triples \<open>(fname, path, h)\<close>.
\<close>

fun detect_local ::
  "(string \<Rightarrow> string) \<Rightarrow> string \<Rightarrow> ledger \<Rightarrow> dir_entry list
     \<Rightarrow> (label \<times> string) list \<Rightarrow> (string \<times> string \<times> string) list
     \<Rightarrow> (label \<times> string) list \<times> (string \<times> string \<times> string) list" where
  "detect_local sha256 dir state [] out new_or_changed = (out, new_or_changed)"
| "detect_local sha256 dir state (e # es) out new_or_changed =
     (let fname = entry_name e in
      if \<not> list_ex (endswith (lower fname)) ALLOWED_EXT then
        detect_local sha256 dir state es out new_or_changed
      else if \<not> entry_is_file e then
        detect_local sha256 dir state es out new_or_changed
      else
        (let path = path_join dir fname;
             h = sha256 (entry_contents e);
             old_hash = map_of state fname
         in if old_hash = None then
              detect_local sha256 dir state es (out @ [(NEW, fname)])
                (new_or_changed @ [(fname, path, h)])
            else if old_hash \<noteq> Some h then
              detect_local sha256 dir state es (out @ [(CHANGED, fname)])
                (new_or_changed @ [(fname, path, h)])
            else
              detect_local sha256 dir state es (out @ [(SKIP, fname)]) new_or_changed))"

text \<open>
  Step 2: upload, wait for the operation, then \<open>state[fname] = h\<close>.  An exception of
  the upload or of a poll leaves the loop with the world as it is then; the ledger in
  memory is lost with the run.
\<close>

fun upload_loop_local ::
  "'op service \<Rightarrow> string \<Rightarrow> (string \<times> string \<times> string) list \<Rightarrow> ledger \<Rightarrow> local_world
     \<Rightarrow> ((error + ledger) \<times> local_world) option" where
  "upload_loop_local client store_name [] state w = Some (Inr state, w)"
| "upload_loop_local client store_name ((fname, path, h) # rest) state w =
     (let w1 = w\<lparr>effects := effects w @ [Upload path store_name fname]\<rparr>
      in case upload_to_file_search_store client path store_name fname of
           Inl e \<Rightarrow> Some (Inl e, w1)
         | Inr operation \<Rightarrow>
             (case wait_done client operation of
                None \<Rightarrow> None
              | Some (Inl e) \<Rightarrow> Some (Inl e, w1)
              | Some (Inr _) \<Rightarrow>
                  upload_loop_local client store_name rest (AList.update fname h state) w1))"

definition incremental_index_local ::
  "'op service \<Rightarrow> (string \<Rightarrow> string) \<Rightarrow> string \<Rightarrow> local_world
     \<Rightarrow> ((error + unit) \<times> local_world) option" where
  "incremental_index_local client sha256 display_name w =
     (case make_client w of
        Inl e \<Rightarrow> Some (Inl e, w)
      | Inr _ \<Rightarrow>
          (case load_or_create_store_local client display_name w of
             (Inl e, w1) \<Rightarrow> Some (Inl e, w1)
           | (Inr store_name, w1) \<Rightarrow>
               (case load_index_state w1 of
                  Inl e \<Rightarrow> Some (Inl e, w1)
                | Inr state \<Rightarrow>
                    (case data_dir w1 of
                       None \<Rightarrow> Some (Inl Data_Dir_Not_Found, w1)
                     | Some listing \<Rightarrow>
                         (case detect_local sha256 (path_join (cwd w1) ''data'') state
                                 listing [] [] of
                            (out, new_or_changed) \<Rightarrow>
                              (let w2 = w1\<lparr>printed := printed w1 @ out\<rparr>
                               in if new_or_changed = [] then Some (Inr (), w2)
                                  else
                                    (case upload_loop_local client store_name
                                            new_or_changed state w2 of
                                       None \<Rightarrow> None
                                     | Some (Inl e, w3) \<Rightarrow> Some (Inl e, w3)
                                     | Some (Inr state', w3) \<Rightarrow>
                                         Some (Inr (), save_index_state state' w3))))))))"

section \<open>The bucket indexer (index\_create\_gcp\_cloud.py)\<close>

text \<open>
  The bucket holds the two configuration objects (\<open>STORE_NAME_BLOB\<close>,
  \<open>INDEX_STATE_BLOB\<close>: absent or a text) and the objects under \<open>DOCS_PREFIX\<close> in
  listing order; the configuration prefix is taken not to lie under the documents'
  prefix, as with the default values.  \<open>tmp_files\<close> are the files under \<open>/tmp\<close> of the
  machine the indexer runs on, path to contents.
\<close>

record blob =
  blob_name :: string
  md5_hash :: "string option"
  blob_data :: string

record gcs_world = env +
  bucket_exists :: bool
  store_name_blob :: "string option"
  index_state_blob :: "string option"
  doc_blobs :: "blob list"
  tmp_files :: "(string \<times> string) list"

definition get_bucket :: "'a gcs_world_scheme \<Rightarrow> error + unit" where
  "get_bucket w = (if \<not> bucket_exists w then Inl Bucket_Not_Found else Inr ())"

definition load_store_name_from_gcs :: "'a gcs_world_scheme \<Rightarrow> string" where
  "load_store_name_from_gcs w =
     (case store_name_blob w of None \<Rightarrow> [] | Some t \<Rightarrow> strip t)"

definition save_store_name_to_gcs :: "string \<Rightarrow> gcs_world \<Rightarrow> gcs_world" where
  "save_store_name_to_gcs store_name w = w\<lparr>store_name_blob := Some store_name\<rparr>"

definition load_index_state_from_gcs :: "'a gcs_world_scheme \<Rightarrow> error + ledger" where
  "load_index_state_from_gcs w =
     (case index_state_blob w of
        None \<Rightarrow> Inr []
      | Some data \<Rightarrow> json_loads data)"

definition save_index_state_to_gcs :: "ledger \<Rightarrow> gcs_world \<Rightarrow> gcs_world" where
  "save_index_state_to_gcs state w =
     (let data = json_dumps state
      in w\<lparr>index_state_blob := Some data, effects := effects w @ [Save_Index_State data]\<rparr>)"

definition load_or_create_store_gcs ::
  "'op service \<Rightarrow> gcs_world \<Rightarrow> (error + string) \<times> gcs_world" where
  "load_or_create_store_gcs client w =
     (let existing_name = load_store_name_from_gcs w
      in if existing_name \<noteq> [] then (Inr existing_name, w)
         else
           (let w1 = w\<lparr>effects := effects w @ [Create_Store ''my_docs_store'']\<rparr>
            in case create_store client ''my_docs_store'' of
                 Inl e \<Rightarrow> (Inl e, w1)
               | Inr store_name \<Rightarrow>
                   (Inr store_name, save_store_name_to_gcs store_name w1)))"

text \<open>
  \<open>list_candidate_blobs\<close>: the objects with an allowed extension, each with its
  \<open>md5_hash\<close>, or with \<open>None\<close> when the hash is missing or empty.
\<close>

fun list_candidate_blobs :: "blob list \<Rightarrow> (string \<times> string option) list" where
  "list_candidate_blobs [] = []"
| "list_candidate_blobs (b # blobs) =
     (if \<not> list_ex (endswith (lower (blob_name b))) ALLOWED_EXT then
        list_candidate_blobs blobs
      else if md5_hash b = None \<or> md5_hash b = Some [] then
        (blob_name b, None) # list_candidate_blobs blobs
      else (blob_name b, md5_hash b) # list_candidate_blobs blobs)"

fun detect_gcs ::
  "ledger \<Rightarrow> (string \<times> string option) list
     \<Rightarrow> (label \<times> string) list \<Rightarrow> (string \<times> string option) list
     \<Rightarrow> (label \<times> string) list \<times> (string \<times> string option) list" where
  "detect_gcs state [] out new_or_changed = (out, new_or_changed)"
| "detect_gcs state ((name, md5) # cs) out new_or_changed =
     (let old_hash = map_of state name
      in if old_hash = None then
           detect_gcs state cs (out @ [(NEW, name)]) (new_or_changed @ [(name, md5)])
         else if md5 = None \<or> old_hash \<noteq> md5 then
           detect_gcs state cs (out @ [(CHANGED, name)]) (new_or_changed @ [(name, md5)])
         else
           detect_gcs state cs (out @ [(SKIP, name)]) new_or_changed)"

text \<open>
  The upload loop: download the object to \<open>/tmp\<close>, upload that file, wait for the
  operation, set \<open>state[blob_name] = md5\<close> when \<open>md5\<close> is not \<open>None\<close>, then
  \<open>os.remove(tmp_path)\<close> with \<open>OSError\<close> ignored.
\<close>

fun upload_loop_gcs ::
  "'op service \<Rightarrow> string \<Rightarrow> (string \<times> string option) list \<Rightarrow> ledger \<Rightarrow> gcs_world
     \<Rightarrow> ((error + ledger) \<times> gcs_world) option" where
  "upload_loop_gcs client store_name [] state w = Some (Inr state, w)"
| "upload_loop_gcs client store_name ((name, md5) # rest) state w =
     (let local_filename = basename name;
          tmp_path = path_join ''/tmp'' local_filename
      in case find (\<lambda>b. blob_name b = name) (doc_blobs w) of
           None \<Rightarrow> Some (Inl (APIError ''NotFound''), w)
         | Some b \<Rightarrow>
             (let w1 = w\<lparr>tmp_files := AList.update tmp_path (blob_data b) (tmp_files w)\<rparr>;
                  w2 = w1\<lparr>effects := effects w1 @ [Upload tmp_path store_name local_filename]\<rparr>
              in case upload_to_file_search_store client tmp_path store_name local_filename of
                   Inl e \<Rightarrow> Some (Inl e, w2)
                 | Inr operation \<Rightarrow>
                     (case wait_done client operation of
                        None \<Rightarrow> None
                      | Some (Inl e) \<Rightarrow> Some (Inl e, w2)
                      | Some (Inr _) \<Rightarrow>
                          (let state' = (case md5 of
                                           None \<Rightarrow> state
                                         | Some m \<Rightarrow> AList.update name m state);
                               w3 = w2\<lparr>tmp_files := AList.delete tmp_path (tmp_files w2)\<rparr>
                           in upload_loop_gcs client store_name rest state' w3))))"

definition incremental_index_gcs ::
  "'op service \<Rightarrow> gcs_world \<Rightarrow> ((error + unit) \<times> gcs_world) option" where
  "incremental_index_gcs client w =
     (case make_client w of
        Inl e \<Rightarrow> Some (Inl e, w)
      | Inr _ \<Rightarrow>
          (case get_bucket w of
             Inl e \<Rightarrow> Some (Inl e, w)
           | Inr _ \<Rightarrow>
               (case load_or_create_store_gcs client w of
                  (Inl e, w1) \<Rightarrow> Some (Inl e, w1)
                | (Inr store_name, w1) \<Rightarrow>
                    (case load_index_state_from_gcs w1 of
                       Inl e \<Rightarrow> Some (Inl e, w1)
                     | Inr state \<Rightarrow>
                         (case detect_gcs state (list_candidate_blobs (doc_blobs w1)) [] [] of
                            (out, new_or_changed) \<Rightarrow>
                              (let w2 = w1\<lparr>printed := printed w1 @ out\<rparr>
                               in if new_or_changed = [] then Some (Inr (), w2)
                                  else
                                    (case upload_loop_gcs client store_name
                                            new_or_changed state w2 of
                                       None \<Rightarrow> None
                                     | Some (Inl e, w3) \<Rightarrow> Some (Inl e, w3)
                                     | Some (Inr state', w3) \<Rightarrow>
                                         Some (Inr (), save_index_state_to_gcs state' w3))))))))"

section \<open>The query endpoint (app.py, app\_remote.py)\<close>

text \<open>
  The response of \<open>client.models.generate_content\<close>, as far as \<open>ask_question\<close>
  reads it: \<open>response.text\<close>, \<open>response.candidates\<close>,
  \<open>candidate.grounding_metadata\<close>, \<open>gm.grounding_chunks\<close>,
  \<open>chunk.retrieved_context\<close> and the context's \<open>title\<close> and \<open>text\<close>.  Every one of
  them is read with \<open>getattr\<close> and a default, so each is optional.
\<close>

record retrieved_context =
  rc_title :: "string option"
  rc_text :: "string option"

record grounding_chunk =
  retrieved_context :: "retrieved_context option"

record grounding_metadata =
  grounding_chunks :: "grounding_chunk list option"

record candidate =
  grounding_metadata :: "grounding_metadata option"

record response =
  response_text :: "string option"
  candidates :: "candidate list option"

record QueryRequest =
  query :: string

record QueryResponse =
  answer :: string
  citations :: "string list"

definition format_citation :: "string \<Rightarrow> string \<Rightarrow> string" where
  \<comment> \<open>the f-string \<open>f'{source_title}: "{snippet}"'\<close>\<close>
  "format_citation source_title snippet =
     source_title @ '': '' @ [CHR 0x22] @ snippet @ [CHR 0x22]"

text \<open>The inner loop \<open>for chunk in chunks\<close>, appending to \<open>citations\<close>.\<close>

fun chunk_loop :: "string list \<Rightarrow> grounding_chunk list \<Rightarrow> string list" where
  "chunk_loop cits [] = cits"
| "chunk_loop cits (chunk # chunks) =
     (case retrieved_context chunk of
        None \<Rightarrow> chunk_loop cits chunks
      | Some rc \<Rightarrow>
          (let source_title = py_or (rc_title rc) ''Unknown source'';
               snippet = py_or (rc_text rc) ''''
           in chunk_loop (cits @ [format_citation source_title snippet]) chunks))"

text \<open>The outer loop \<open>for candidate in candidates\<close>.\<close>

fun candidate_loop :: "string list \<Rightarrow> candidate list \<Rightarrow> string list" where
  "candidate_loop cits [] = cits"
| "candidate_loop cits (c # cs) =
     (case grounding_metadata c of
        None \<Rightarrow> candidate_loop cits cs
      | Some gm \<Rightarrow>
          (let chunks = (case grounding_chunks gm of None \<Rightarrow> [] | Some l \<Rightarrow> l)
           in candidate_loop (chunk_loop cits chunks) cs))"

text \<open>
  \<open>ask_question\<close> of app.py.  \<open>STORE_NAME\<close> is the module constant read at start-up and
  \<open>generate_content model contents store_names\<close> is the call to the external model
  with File Search as its tool.
\<close>

definition ask_question ::
  "string \<Rightarrow> (string \<Rightarrow> string \<Rightarrow> string list \<Rightarrow> error + response) \<Rightarrow> QueryRequest
     \<Rightarrow> error + QueryResponse" where
  "ask_question STORE_NAME generate_content req =
     (if STORE_NAME = [] then
        Inl (HTTPException 500
          ''File Search store not loaded. Ensure .store_name is created by the indexer.'')
      else
        (case generate_content ''gemini-2.5-flash'' (query req) [STORE_NAME] of
           Inl e \<Rightarrow> Inl e
         | Inr response \<Rightarrow>
             (let txt = py_or (response_text response) '''';
                  cands = (case candidates response of None \<Rightarrow> [] | Some l \<Rightarrow> l);
                  cits = candidate_loop [] cands
              in Inr \<lparr>answer = txt, citations = cits\<rparr>)))"

text \<open>\<open>ask_question\<close> of app\_remote.py: the same body with another detail message.\<close>

definition ask_question_remote ::
  "string \<Rightarrow> (string \<Rightarrow> string \<Rightarrow> string list \<Rightarrow> error + response) \<Rightarrow> QueryRequest
     \<Rightarrow> error + QueryResponse" where
  "ask_question_remote STORE_NAME generate_content req =
     (if STORE_NAME = [] then
        Inl (HTTPException 500
          ''File Search store not loaded. Ensure store_name.txt is created in GCS by the indexer.'')
      else
        (case generate_content ''gemini-2.5-flash'' (query req) [STORE_NAME] of
           Inl e \<Rightarrow> Inl e
         | Inr response \<Rightarrow>
             (let txt = py_or (response_text response) '''';
                  cands = (case candidates response of None \<Rightarrow> [] | Some l \<Rightarrow> l);
                  cits = candidate_loop [] cands
              in Inr \<lparr>answer = txt, citations = cits\<rparr>)))"

subsection \<open>The citation format as the specification words it\<close>

text \<open>
  The specification's reading of one citation: the source title, or a fixed placeholder
  when the title is absent, then a colon, a space and the snippet in double quotes.
\<close>

definition spec_citation :: "retrieved_context \<Rightarrow> string" where
  "spec_citation rc =
     (case rc_title rc of
        None \<Rightarrow> ''Unknown source''
      | Some t \<Rightarrow> if t = [] then ''Unknown source'' else t)
     @ [CHR '':'', CHR '' '', CHR 0x22]
     @ (case rc_text rc of None \<Rightarrow> [] | Some s \<Rightarrow> s)
     @ [CHR 0x22]"

text \<open>The retrieved contexts of a response, in the order the loops visit them.\<close>

definition contexts_of_candidate :: "candidate \<Rightarrow> retrieved_context list" where
  "contexts_of_candidate c =
     (case grounding_metadata c of
        None \<Rightarrow> []
      | Some gm \<Rightarrow>
          (case grounding_chunks gm of
             None \<Rightarrow> []
           | Some chunks \<Rightarrow> List.map_filter retrieved_context chunks))"

definition contexts_of :: "response \<Rightarrow> retrieved_context list" where
  "contexts_of r =
     (case candidates r of None \<Rightarrow> [] | Some cs \<Rightarrow> concat (map contexts_of_candidate cs))"

section \<open>Example inputs\<close>

text \<open>
  A client whose operations are numbers: an upload answers an operation that reports
  \<open>done\<close> after two polls.  \<open>failing_client\<close> is the same service with every upload
  refused, and \<open>stuck_client\<close> refuses every poll.
\<close>

definition example_client :: "nat service" where
  "example_client =
     \<lparr>create_store = (\<lambda>d. Inr ''fileSearchStores/s1''),
      upload_to_file_search_store = (\<lambda>p s d. Inr 2),
      operations_get = (\<lambda>n. Inr (n - 1)),
      op_done = (\<lambda>n. n = 0)\<rparr>"

definition failing_client :: "nat service" where
  "failing_client =
     example_client\<lparr>upload_to_file_search_store := (\<lambda>p s d. Inl (APIError ''503''))\<rparr>"

definition stuck_client :: "nat service" where
  "stuck_client = example_client\<lparr>operations_get := (\<lambda>n. Inl (APIError ''503''))\<rparr>"

text \<open>
  A bucket with one document that has a hash and one that has none, an empty ledger and
  no store yet; and a working directory with a store, no ledger and three entries of
  which one is a document.
\<close>

definition example_bucket :: gcs_world where
  "example_bucket =
     \<lparr>GOOGLE_API_KEY = Some ''k'', GEMINI_API_KEY = None, effects = [], printed = [],
      bucket_exists = True, store_name_blob = None, index_state_blob = Some ''{}'',
      doc_blobs =
        [\<lparr>blob_name = ''PdfDocuments/c.pdf'', md5_hash = None, blob_data = ''x''\<rparr>,
         \<lparr>blob_name = ''PdfDocuments/a.txt'', md5_hash = Some ''h1'', blob_data = ''y''\<rparr>],
      tmp_files = []\<rparr>"

definition example_dir :: local_world where
  "example_dir =
     \<lparr>GOOGLE_API_KEY = None, GEMINI_API_KEY = Some ''k'', effects = [], printed = [],
      cwd = ''/home/u'', store_name_file = Some (''stores/s0'' @ [CHR 0x0A]),
      index_state_file = None,
      data_dir = Some
        [\<lparr>entry_name = ''a.txt'', entry_is_file = True, entry_contents = ''y''\<rparr>,
         \<lparr>entry_name = ''sub.pdf'', entry_is_file = False, entry_contents = ''''\<rparr>,
         \<lparr>entry_name = ''notes.md'', entry_is_file = True, entry_contents = ''''\<rparr>]\<rparr>"

text \<open>
  The worlds the example runs pass through: the bucket once its store is created, after
  a first run and after a second run; the working directory after a run.  \<open>example_sha\<close>
  stands for the digest.
\<close>

definition example_bucket_ready :: gcs_world where
  "example_bucket_ready =
     example_bucket\<lparr>effects := [Create_Store ''my_docs_store''],
                    store_name_blob := Some ''fileSearchStores/s1''\<rparr>"

definition example_bucket_after :: gcs_world where
  "example_bucket_after =
     example_bucket
       \<lparr>effects :=
          [Create_Store ''my_docs_store'',
           Upload ''/tmp/c.pdf'' ''fileSearchStores/s1'' ''c.pdf'',
           Upload ''/tmp/a.txt'' ''fileSearchStores/s1'' ''a.txt'',
           Save_Index_State (json_dumps [(''PdfDocuments/a.txt'', ''h1'')])],
        printed := [(NEW, ''PdfDocuments/c.pdf''), (NEW, ''PdfDocuments/a.txt'')],
        store_name_blob := Some ''fileSearchStores/s1'',
        index_state_blob := Some (json_dumps [(''PdfDocuments/a.txt'', ''h1'')])\<rparr>"

definition example_bucket_after2 :: gcs_world where
  "example_bucket_after2 =
     example_bucket_after
       \<lparr>effects := effects example_bucket_after
          @ [Upload ''/tmp/c.pdf'' ''fileSearchStores/s1'' ''c.pdf'',
             Save_Index_State (json_dumps [(''PdfDocuments/a.txt'', ''h1'')])],
        printed := printed example_bucket_after
          @ [(NEW, ''PdfDocuments/c.pdf''), (SKIP, ''PdfDocuments/a.txt'')]\<rparr>"

definition example_sha :: "string \<Rightarrow> string" where
  "example_sha contents = ''sha-'' @ contents"

definition example_dir_after :: local_world where
  "example_dir_after =
     example_dir
       \<lparr>effects :=
          [Upload ''/home/u/data/a.txt'' ''stores/s0'' ''a.txt'',
           Save_Index_State (json_dumps [(''a.txt'', ''sha-y'')])],
        printed := [(NEW, ''a.txt'')],
        index_state_file := Some (json_dumps [(''a.txt'', ''sha-y'')])\<rparr>"

text \<open>
  Two more buckets: one in which every document has a fingerprint, and one whose ledger
  already holds an entry for the document that has none.
\<close>

definition hashed_bucket :: gcs_world where
  "hashed_bucket =
     example_bucket
       \<lparr>doc_blobs :=
          [\<lparr>blob_name = ''PdfDocuments/c.pdf'', md5_hash = Some ''h3'', blob_data = ''x''\<rparr>,
           \<lparr>blob_name = ''PdfDocuments/a.txt'', md5_hash = Some ''h1'', blob_data = ''y''\<rparr>]\<rparr>"

definition hashed_bucket_after :: gcs_world where
  "hashed_bucket_after =
     hashed_bucket
       \<lparr>effects :=
          [Create_Store ''my_docs_store'',
           Upload ''/tmp/c.pdf'' ''fileSearchStores/s1'' ''c.pdf'',
           Upload ''/tmp/a.txt'' ''fileSearchStores/s1'' ''a.txt'',
           Save_Index_State
             (json_dumps [(''PdfDocuments/c.pdf'', ''h3''), (''PdfDocuments/a.txt'', ''h1'')])],
        printed := [(NEW, ''PdfDocuments/c.pdf''), (NEW, ''PdfDocuments/a.txt'')],
        store_name_blob := Some ''fileSearchStores/s1'',
        index_state_blob := Some
          (json_dumps [(''PdfDocuments/c.pdf'', ''h3''), (''PdfDocuments/a.txt'', ''h1'')])\<rparr>"

definition stale_bucket :: gcs_world where
  "stale_bucket =
     example_bucket
       \<lparr>index_state_blob := Some (json_dumps [(''PdfDocuments/c.pdf'', ''h0'')])\<rparr>"

definition stale_bucket_ready :: gcs_world where
  "stale_bucket_ready =
     stale_bucket\<lparr>effects := [Create_Store ''my_docs_store''],
                  store_name_blob := Some ''fileSearchStores/s1''\<rparr>"

definition stale_bucket_after :: gcs_world where
  "stale_bucket_after =
     stale_bucket
       \<lparr>effects :=
          [Create_Store ''my_docs_store'',
           Upload ''/tmp/c.pdf'' ''fileSearchStores/s1'' ''c.pdf'',
           Upload ''/tmp/a.txt'' ''fileSearchStores/s1'' ''a.txt'',
           Save_Index_State
             (json_dumps [(''PdfDocuments/c.pdf'', ''h0''), (''PdfDocuments/a.txt'', ''h1'')])],
        printed := [(CHANGED, ''PdfDocuments/c.pdf''), (NEW, ''PdfDocuments/a.txt'')],
        store_name_blob := Some ''fileSearchStores/s1'',
        index_state_blob := Some
          (json_dumps [(''PdfDocuments/c.pdf'', ''h0''), (''PdfDocuments/a.txt'', ''h1'')])\<rparr>"

section \<open>Notions the claims are stated with\<close>

text \<open>
  The classification as the specification words it, for a ledger \<open>L\<close> and a document
  with identifier \<open>ident\<close> and fingerprint \<open>fp\<close> (\<open>None\<close> when absent): new when the
  identifier is not a key of \<open>L\<close>; changed when it is a key and the fingerprint is
  absent or differs from \<open>L[ident]\<close>; unchanged (the label \<open>SKIP\<close>) otherwise.
\<close>

definition spec_classify :: "ledger \<Rightarrow> string \<Rightarrow> string option \<Rightarrow> label" where
  "spec_classify L ident fp =
     (if ident \<notin> fst ` set L then NEW
      else if fp = None \<or> map_of L ident \<noteq> fp then CHANGED
      else SKIP)"

text \<open>
  The documents the local indexer enumerates: the regular files of \<open>data\<close> with an
  allowed extension, each with its path and the digest of its contents.
\<close>

definition local_candidates ::
  "(string \<Rightarrow> string) \<Rightarrow> string \<Rightarrow> dir_entry list \<Rightarrow> (string \<times> string \<times> string) list" where
  "local_candidates sha256 dir listing =
     map (\<lambda>e. (entry_name e, path_join dir (entry_name e), sha256 (entry_contents e)))
       (filter (\<lambda>e. list_ex (endswith (lower (entry_name e))) ALLOWED_EXT \<and> entry_is_file e)
          listing)"

text \<open>The upload that each indexer requests for a document of its upload list.\<close>

definition upload_call_local :: "string \<Rightarrow> string \<times> string \<times> string \<Rightarrow> effect" where
  "upload_call_local store_name d = Upload (fst (snd d)) store_name (fst d)"

definition tmp_path_of :: "string \<Rightarrow> string" where
  "tmp_path_of name = path_join ''/tmp'' (basename name)"

definition upload_call_gcs :: "string \<Rightarrow> string \<times> string option \<Rightarrow> effect" where
  "upload_call_gcs store_name d = Upload (tmp_path_of (fst d)) store_name (basename (fst d))"

text \<open>The uploads among the effects of a run.\<close>

fun is_upload :: "effect \<Rightarrow> bool" where
  "is_upload (Upload p s d) = True"
| "is_upload (Create_Store d) = False"
| "is_upload (Save_Index_State t) = False"

definition uploads :: "effect list \<Rightarrow> effect list" where
  "uploads es = filter is_upload es"

fun is_save :: "effect \<Rightarrow> bool" where
  "is_save (Save_Index_State t) = True"
| "is_save (Upload p s d) = False"
| "is_save (Create_Store d) = False"

text \<open>
  An upload completes when the service accepts it and polling its operation ends with
  an operation that reports \<open>done\<close>; it does not when the upload raises, a poll raises
  or the polling never ends.
\<close>

definition completes :: "'op service \<Rightarrow> effect \<Rightarrow> bool" where
  "completes client call =
     (case call of
        Upload path store_name display_name \<Rightarrow>
          (case upload_to_file_search_store client path store_name display_name of
             Inl e \<Rightarrow> False
           | Inr operation \<Rightarrow>
               (case wait_done client operation of
                  Some (Inr operation') \<Rightarrow> op_done client operation'
                | _ \<Rightarrow> False))
      | _ \<Rightarrow> False)"

text \<open>The ledger in memory after the commits of a whole upload list.\<close>

definition commit_all_local :: "(string \<times> string \<times> string) list \<Rightarrow> ledger \<Rightarrow> ledger" where
  "commit_all_local ds state = foldl (\<lambda>st d. AList.update (fst d) (snd (snd d)) st) state ds"

definition commit_all_gcs :: "(string \<times> string option) list \<Rightarrow> ledger \<Rightarrow> ledger" where
  "commit_all_gcs ds state =
     foldl (\<lambda>st d. case snd d of None \<Rightarrow> st | Some m \<Rightarrow> AList.update (fst d) m st) state ds"

text \<open>
  A run reaches its detection loop: the API key is set, the store is resolved as
  \<open>store_name\<close> leaving the world \<open>w1\<close>, the ledger loads as \<open>state\<close> (and, locally,
  \<open>data\<close> is a directory with the given listing; for the bucket, the bucket exists).
\<close>

definition local_ready ::
  "'op service \<Rightarrow> string \<Rightarrow> local_world \<Rightarrow> string \<Rightarrow> local_world \<Rightarrow> ledger \<Rightarrow> dir_entry list
     \<Rightarrow> bool" where
  "local_ready client display_name w store_name w1 state listing =
     (make_client w = Inr ()
      \<and> load_or_create_store_local client display_name w = (Inr store_name, w1)
      \<and> load_index_state w1 = Inr state
      \<and> data_dir w1 = Some listing)"

definition gcs_ready ::
  "'op service \<Rightarrow> gcs_world \<Rightarrow> string \<Rightarrow> gcs_world \<Rightarrow> ledger \<Rightarrow> bool" where
  "gcs_ready client w store_name w1 state =
     (make_client w = Inr ()
      \<and> get_bucket w = Inr ()
      \<and> load_or_create_store_gcs client w = (Inr store_name, w1)
      \<and> load_index_state_from_gcs w1 = Inr state)"

text \<open>The documents of a listing that a ledger does not classify as unchanged.\<close>

definition new_or_changed_gcs ::
  "ledger \<Rightarrow> (string \<times> string option) list \<Rightarrow> (string \<times> string option) list" where
  "new_or_changed_gcs state cands =
     filter (\<lambda>d. spec_classify state (fst d) (snd d) \<noteq> SKIP) cands"

definition new_or_changed_local ::
  "ledger \<Rightarrow> (string \<times> string \<times> string) list \<Rightarrow> (string \<times> string \<times> string) list" where
  "new_or_changed_local state cands =
     filter (\<lambda>d. spec_classify state (fst d) (Some (snd (snd d))) \<noteq> SKIP) cands"

section \<open>The encoder and the decoder agree\<close>

lemma hexval_hexdigit: "d < 16 \<Longrightarrow> hexval (hexdigit d) = Some d"
proof -
  have "list_all (\<lambda>d. hexval (hexdigit d) = Some d) [0..<16]" by code_simp
  then show "d < 16 \<Longrightarrow> hexval (hexdigit d) = Some d"
    by (simp add: list_all_iff)
qed

lemma of_char_less_256: "(of_char c :: nat) < 256"
proof -
  have "(of_char c :: nat) mod 256 < 256" by simp
  then show ?thesis by (simp only: of_char_mod_256)
qed

lemma decode_hex_byte:
  "decode_uXXXX (CHR ''0'') (CHR ''0'') (hexdigit (of_char c div 16)) (hexdigit (of_char c mod 16))
     = Some (of_char c)"
proof -
  have a: "(of_char c :: nat) div 16 < 16"
    by (rule less_mult_imp_div_less) (use of_char_less_256 [of c] in simp)
  have b: "(of_char c :: nat) mod 16 < 16" by simp
  have z: "hexval (CHR ''0'') = Some 0" by (simp add: hexval_def)
  show ?thesis
    by (simp add: decode_uXXXX_def z hexval_hexdigit [OF a] hexval_hexdigit [OF b])
qed

text \<open>Scanning the escape of a character gives the character back.\<close>

lemma scanstring_escape:
  "scanstring (escape_ascii c @ t) = emit c (scanstring t)"
proof -
  consider (q) "c = CHR 0x22" | (bs) "c = CHR 0x5C" | (b) "c = CHR 0x08" | (f) "c = CHR 0x0C"
    | (n) "c = CHR 0x0A" | (r) "c = CHR 0x0D" | (t) "c = CHR 0x09"
    | (plain) "c \<noteq> CHR 0x22" "c \<noteq> CHR 0x5C"
        "(0x20::nat) \<le> of_char c" "(of_char c :: nat) \<le> 0x7E"
    | (u) "c \<noteq> CHR 0x22" "c \<noteq> CHR 0x5C" "c \<noteq> CHR 0x08" "c \<noteq> CHR 0x0C"
        "c \<noteq> CHR 0x0A" "c \<noteq> CHR 0x0D" "c \<noteq> CHR 0x09"
        "\<not> ((0x20::nat) \<le> of_char c \<and> (of_char c :: nat) \<le> 0x7E)"
    by blast
  then show ?thesis
  proof cases
    case q then show ?thesis by (simp add: escape_ascii_def BACKSLASH_def)
  next
    case bs then show ?thesis by (simp add: escape_ascii_def BACKSLASH_def)
  next
    case b then show ?thesis by (simp add: escape_ascii_def BACKSLASH_def)
  next
    case f then show ?thesis by (simp add: escape_ascii_def BACKSLASH_def)
  next
    case n then show ?thesis by (simp add: escape_ascii_def BACKSLASH_def)
  next
    case r then show ?thesis by (simp add: escape_ascii_def BACKSLASH_def)
  next
    case t then show ?thesis by (simp add: escape_ascii_def BACKSLASH_def)
  next
    case plain
    have e: "escape_ascii c = [c]"
      using plain by (auto simp: escape_ascii_def)
    show ?thesis using plain by (simp add: e)
  next
    case u
    then show ?thesis
      by (simp add: escape_ascii_def decode_hex_byte of_char_less_256)
  qed
qed

lemma scanstring_encoded:
  "scanstring (concat (map escape_ascii s) @ CHR 0x22 # rest) = Inr (s, rest)"
  by (induction s) (simp_all add: scanstring_escape emit_def)

lemma skip_ws_simps:
  "skip_ws [] = []"
  "skip_ws (CHR '' '' # s) = skip_ws s"
  "skip_ws (CHR 0x0A # s) = skip_ws s"
  "skip_ws (CHR 0x22 # s) = CHR 0x22 # s"
  "skip_ws (CHR '':'' # s) = CHR '':'' # s"
  "skip_ws (CHR '','' # s) = CHR '','' # s"
  "skip_ws (CHR ''{'' # s) = CHR ''{'' # s"
  "skip_ws (CHR ''}'' # s) = CHR ''}'' # s"
  by (simp_all add: skip_ws_def is_json_ws_def)

text \<open>
  The text of the items of a non-empty dictionary after the first quote, written out
  character by character: what \<open>parse_members\<close> meets.
\<close>

definition item_body :: "string \<times> string \<Rightarrow> string" where
  "item_body kv = concat (map escape_ascii (fst kv))
     @ CHR 0x22 # CHR '':'' # CHR '' '' # CHR 0x22
     # concat (map escape_ascii (snd kv)) @ [CHR 0x22]"

fun members_text :: "(string \<times> string) list \<Rightarrow> string" where
  "members_text [] = []"
| "members_text [kv] = item_body kv"
| "members_text (kv # kv' # ms) =
     item_body kv @ CHR '','' # CHR 0x0A # CHR '' '' # CHR '' '' # CHR 0x22
       # members_text (kv' # ms)"

lemma encode_item_body: "encode_item kv = CHR 0x22 # item_body kv"
  by (simp add: encode_item_def item_body_def encode_basestring_ascii_def)

lemma join_items_members_text:
  "ms \<noteq> [] \<Longrightarrow>
   join_items ('','' @ [CHR 0x0A] @ ''  '') (map encode_item ms) = CHR 0x22 # members_text ms"
  by (induction ms rule: members_text.induct) (simp_all add: encode_item_body)

lemma parse_item:
  "scanstring (item_body kv @ t)
     = Inr (fst kv, CHR '':'' # CHR '' '' # CHR 0x22
              # concat (map escape_ascii (snd kv)) @ CHR 0x22 # t)"
  by (simp add: item_body_def scanstring_encoded)

lemma parse_members_text:
  "ms \<noteq> [] \<Longrightarrow>
   parse_members (members_text ms @ CHR 0x0A # CHR ''}'' # rest) = Inr (ms, rest)"
proof (induction ms rule: members_text.induct)
  case 1
  then show ?case by simp
next
  case (2 kv)
  show ?case
    by (subst parse_members.simps)
       (simp add: parse_item scanstring_encoded skip_ws_simps)
next
  case (3 kv kv' ms)
  have ih: "parse_members (members_text (kv' # ms) @ CHR 0x0A # CHR ''}'' # rest)
              = Inr (kv' # ms, rest)"
    using "3.IH" by simp
  show ?case
    by (subst parse_members.simps)
       (simp add: parse_item scanstring_encoded skip_ws_simps ih)
qed

lemma update_fresh: "k \<notin> fst ` set al \<Longrightarrow> AList.update k v al = al @ [(k, v)]"
  by (induction al) auto

lemma foldl_update_distinct:
  "distinct (map fst (acc @ ms)) \<Longrightarrow>
   foldl (\<lambda>d kv. AList.update (fst kv) (snd kv) d) acc ms = acc @ ms"
proof (induction ms arbitrary: acc)
  case Nil
  show ?case by simp
next
  case (Cons kv ms)
  from Cons.prems have fresh: "fst kv \<notin> fst ` set acc" by auto
  from Cons.prems have "distinct (map fst ((acc @ [kv]) @ ms))" by auto
  from Cons.IH [OF this] show ?case by (simp add: update_fresh [OF fresh])
qed

lemma py_dict_distinct: "distinct (map fst ms) \<Longrightarrow> py_dict ms = ms"
  using foldl_update_distinct [of "[]" ms] by (simp add: py_dict_def)

lemma distinct_py_dict: "distinct (map fst (py_dict ms))"
proof -
  have "distinct (map fst acc) \<Longrightarrow>
        distinct (map fst (foldl (\<lambda>d kv. AList.update (fst kv) (snd kv) d) acc ms))" for acc
    by (induction ms arbitrary: acc) (simp_all add: distinct_update)
  from this [of "[]"] show ?thesis by (simp add: py_dict_def)
qed

lemma json_loads_iterencode:
  "json_loads (iterencode_dict ms) = Inr (py_dict ms)"
proof (cases "ms = []")
  case True
  then show ?thesis
    by (simp add: iterencode_dict_def json_loads_def skip_ws_simps finish_decode_def
        py_dict_def)
next
  case False
  then show ?thesis
    by (simp add: iterencode_dict_def json_loads_def skip_ws_simps finish_decode_def
        join_items_members_text [OF False, simplified] parse_members_text [OF False])
qed

lemma distinct_keys_sort:
  "distinct (map fst dct) \<Longrightarrow> distinct (map fst (sort_key fst dct))"
  by (simp add: distinct_map)

lemma json_loads_dumps:
  "distinct (map fst dct) \<Longrightarrow> json_loads (json_dumps dct) = Inr (sort_key fst dct)"
  by (simp add: json_dumps_def json_loads_iterencode py_dict_distinct distinct_keys_sort)

lemma map_of_sort_key:
  "distinct (map fst dct) \<Longrightarrow> map_of (sort_key fst dct) = map_of dct"
  by (rule map_of_inject_set [THEN iffD2]) (simp_all add: distinct_keys_sort)

text \<open>Every dictionary the decoder returns has distinct keys.\<close>

lemma json_loads_distinct: "json_loads s = Inr d \<Longrightarrow> distinct (map fst d)"
  by (auto simp: json_loads_def finish_decode_def distinct_py_dict
      split: list.splits if_splits sum.splits prod.splits)

text \<open>
  Two key-sorted lists with distinct keys and the same entries are the same list, so
  the text written for a dictionary does not depend on its insertion order.
\<close>

lemma same_keys_same_list:
  "map fst xs = map fst ys \<Longrightarrow> distinct (map fst xs) \<Longrightarrow> set xs = set ys \<Longrightarrow> xs = ys"
proof (induction xs arbitrary: ys)
  case Nil
  then show ?case by simp
next
  case (Cons x xs)
  from Cons.prems(1) obtain y ys' where ys: "ys = y # ys'" "fst x = fst y" "map fst xs = map fst ys'"
    by (cases ys) auto
  from Cons.prems(2) have nx: "fst x \<notin> fst ` set xs" and dx: "distinct (map fst xs)" by auto
  from nx ys have ny: "fst y \<notin> fst ` set ys'"
    by (metis list.set_map)
  from Cons.prems(3) ys have "x \<in> set (y # ys')" by auto
  with ny ys(2) have xy: "x = y" by (auto simp: image_iff)
  have "set xs = set ys'"
  proof -
    have "x \<notin> set xs" using nx by (auto simp: image_iff)
    moreover have "y \<notin> set ys'" using ny by (auto simp: image_iff)
    ultimately show ?thesis using Cons.prems(3) ys(1) xy by auto
  qed
  from Cons.IH [OF ys(3) dx this] xy ys(1) show ?case by simp
qed

lemma sort_key_unique:
  assumes "distinct (map fst xs)" "distinct (map fst ys)" "map_of xs = map_of ys"
  shows "sort_key fst xs = sort_key fst ys"
proof -
  from assms have s: "set xs = set ys" by (simp add: map_of_inject_set)
  have "map fst (sort_key fst xs) = map fst (sort_key fst ys)"
  proof (rule sorted_distinct_set_unique)
    show "sorted (map fst (sort_key fst xs))" "sorted (map fst (sort_key fst ys))" by simp_all
    show "distinct (map fst (sort_key fst xs))" "distinct (map fst (sort_key fst ys))"
      using assms by (simp_all add: distinct_keys_sort)
    show "set (map fst (sort_key fst xs)) = set (map fst (sort_key fst ys))"
      using s by simp
  qed
  then show ?thesis
    by (rule same_keys_same_list) (use assms s in \<open>simp_all add: distinct_keys_sort\<close>)
qed

section \<open>Lemmas about the loops and the runs\<close>

lemma wait_done_result:
  assumes "wait_done c operation = Some r"
  shows "case r of Inl e \<Rightarrow> True | Inr op' \<Rightarrow> op_done c op'"
  by (rule wait_done.raw_induct
        [where P = "\<lambda>c operation r. case r of Inl e \<Rightarrow> True | Inr op' \<Rightarrow> op_done c op'",
         OF _ assms])
     (fastforce split: if_splits sum.splits)

lemma wait_done_done: "wait_done c operation = Some (Inr op') \<Longrightarrow> op_done c op'"
  by (drule wait_done_result) simp

lemma completes_iff:
  "completes c (Upload p s d) \<longleftrightarrow>
     (\<exists>op op'. upload_to_file_search_store c p s d = Inr op \<and> wait_done c op = Some (Inr op'))"
  by (auto simp: completes_def wait_done_done split: sum.splits option.splits)

lemma spec_classify_map_of:
  "spec_classify L n fp =
     (case map_of L n of None \<Rightarrow> NEW
      | Some old \<Rightarrow> if fp = None \<or> Some old \<noteq> fp then CHANGED else SKIP)"
  by (cases "map_of L n") (simp_all add: spec_classify_def map_of_eq_None_iff [symmetric])

lemma detect_gcs_spec:
  "detect_gcs state cs out noc =
     (out @ map (\<lambda>d. (spec_classify state (fst d) (snd d), fst d)) cs,
      noc @ new_or_changed_gcs state cs)"
proof (induction cs arbitrary: out noc)
  case Nil
  show ?case by (simp add: new_or_changed_gcs_def)
next
  case (Cons d cs)
  obtain n fp where d: "d = (n, fp)" by (cases d)
  show ?case
    by (cases "map_of state n")
       (auto simp: d Cons.IH new_or_changed_gcs_def spec_classify_map_of Let_def)
qed

lemma detect_local_spec:
  "detect_local sha dir state listing out noc =
     (out @ map (\<lambda>d. (spec_classify state (fst d) (Some (snd (snd d))), fst d))
              (local_candidates sha dir listing),
      noc @ new_or_changed_local state (local_candidates sha dir listing))"
proof (induction listing arbitrary: out noc)
  case Nil
  show ?case by (simp add: new_or_changed_local_def local_candidates_def)
next
  case (Cons e es)
  show ?case
    by (cases "map_of state (entry_name e)")
       (auto simp: Cons.IH new_or_changed_local_def local_candidates_def
          spec_classify_map_of Let_def)
qed


lemma upload_loop_gcs_step:
  assumes "upload_loop_gcs c s ((n, fp) # rest) st w = Some (r, w')"
  shows "(find (\<lambda>b. blob_name b = n) (doc_blobs w) = None
            \<and> r = Inl (APIError ''NotFound'') \<and> w' = w)
       \<or> (\<exists>b e. find (\<lambda>b. blob_name b = n) (doc_blobs w) = Some b
            \<and> \<not> completes c (upload_call_gcs s (n, fp)) \<and> r = Inl e
            \<and> w' = w\<lparr>effects := effects w @ [upload_call_gcs s (n, fp)],
                      tmp_files := AList.update (tmp_path_of n) (blob_data b) (tmp_files w)\<rparr>)
       \<or> (\<exists>b. find (\<lambda>b. blob_name b = n) (doc_blobs w) = Some b
            \<and> completes c (upload_call_gcs s (n, fp))
            \<and> upload_loop_gcs c s rest
                 (case fp of None \<Rightarrow> st | Some m \<Rightarrow> AList.update n m st)
                 (w\<lparr>effects := effects w @ [upload_call_gcs s (n, fp)],
          tmp_files := AList.delete (tmp_path_of n)
                         (AList.update (tmp_path_of n) (blob_data b) (tmp_files w))\<rparr>) = Some (r, w'))"
proof (cases "find (\<lambda>b. blob_name b = n) (doc_blobs w)")
  case None
  with assms show ?thesis by simp
next
  case (Some b)
  show ?thesis
  proof (cases "upload_to_file_search_store c (tmp_path_of n) s (basename n)")
    case (Inl e)
    with assms Some show ?thesis
      by (auto simp: Let_def tmp_path_of_def upload_call_gcs_def completes_def)
  next
    case (Inr operation)
    show ?thesis
    proof (cases "wait_done c operation")
      case None
      with assms Some Inr show ?thesis
        by (simp add: Let_def tmp_path_of_def)
    next
      case (Some res)
      note wd = this
      show ?thesis
      proof (cases res)
        case (Inl e)
        with assms \<open>find _ _ = Some b\<close> Inr wd show ?thesis
          by (auto simp: Let_def tmp_path_of_def upload_call_gcs_def completes_def)
      next
        case (Inr op')
        with wd have "op_done c op'" by (auto dest: wait_done_done)
        with assms \<open>find _ _ = Some b\<close> \<open>upload_to_file_search_store _ _ _ _ = Inr operation\<close> wd Inr
        show ?thesis
          by (simp add: Let_def tmp_path_of_def upload_call_gcs_def completes_def)
      qed
    qed
  qed
qed

lemma upload_loop_gcs_frame:
  "upload_loop_gcs c s noc st w = Some (r, w') \<Longrightarrow>
     index_state_blob w' = index_state_blob w \<and> store_name_blob w' = store_name_blob w
   \<and> doc_blobs w' = doc_blobs w \<and> bucket_exists w' = bucket_exists w
   \<and> printed w' = printed w \<and> GOOGLE_API_KEY w' = GOOGLE_API_KEY w
   \<and> GEMINI_API_KEY w' = GEMINI_API_KEY w"
proof (induction noc arbitrary: st w)
  case Nil
  then show ?case by simp
next
  case (Cons d noc)
  obtain n fp where d: "d = (n, fp)" by (cases d)
  from upload_loop_gcs_step [OF Cons.prems [unfolded d]] show ?case
  proof (elim disjE exE conjE)
    fix b assume "upload_loop_gcs c s noc (case fp of None \<Rightarrow> st | Some m \<Rightarrow> AList.update n m st)
       (w\<lparr>effects := effects w @ [upload_call_gcs s (n, fp)],
          tmp_files := AList.delete (tmp_path_of n)
                         (AList.update (tmp_path_of n) (blob_data b) (tmp_files w))\<rparr>) = Some (r, w')"
    from Cons.IH [OF this] show ?thesis by simp
  qed simp_all
qed

lemma commit_all_gcs_Cons:
  "commit_all_gcs ((n, fp) # ds) st
     = commit_all_gcs ds (case fp of None \<Rightarrow> st | Some m \<Rightarrow> AList.update n m st)"
  by (cases fp) (simp_all add: commit_all_gcs_def)

lemma upload_loop_gcs_Inr:
  "upload_loop_gcs c s noc st w = Some (Inr st', w') \<Longrightarrow>
     st' = commit_all_gcs noc st
   \<and> effects w' = effects w @ map (upload_call_gcs s) noc
   \<and> (\<forall>d\<in>set noc. completes c (upload_call_gcs s d))"
proof (induction noc arbitrary: st w)
  case Nil
  then show ?case by (simp add: commit_all_gcs_def)
next
  case (Cons d noc)
  obtain n fp where d: "d = (n, fp)" by (cases d)
  from upload_loop_gcs_step [OF Cons.prems [unfolded d]] show ?case
  proof (elim disjE exE conjE)
    fix b assume cp: "completes c (upload_call_gcs s (n, fp))"
      and "upload_loop_gcs c s noc (case fp of None \<Rightarrow> st | Some m \<Rightarrow> AList.update n m st)
       (w\<lparr>effects := effects w @ [upload_call_gcs s (n, fp)],
          tmp_files := AList.delete (tmp_path_of n)
                         (AList.update (tmp_path_of n) (blob_data b) (tmp_files w))\<rparr>) = Some (Inr st', w')"
    from Cons.IH [OF this(2)] cp show ?thesis by (simp add: d commit_all_gcs_Cons)
  qed simp_all
qed

lemma keys_delete: "fst ` set (AList.delete k al) = fst ` set al - {k}"
  by (auto simp: AList.delete_eq image_iff)

lemma upload_loop_gcs_tmp_absent:
  "upload_loop_gcs c s noc st w = Some (Inr st', w') \<Longrightarrow>
     p \<notin> fst ` set (tmp_files w) \<Longrightarrow> p \<notin> fst ` set (tmp_files w')"
proof (induction noc arbitrary: st w)
  case Nil
  then show ?case by simp
next
  case (Cons d noc)
  obtain n fp where d: "d = (n, fp)" by (cases d)
  from upload_loop_gcs_step [OF Cons.prems(1) [unfolded d]] show ?case
  proof (elim disjE exE conjE)
    fix b assume run: "upload_loop_gcs c s noc (case fp of None \<Rightarrow> st | Some m \<Rightarrow> AList.update n m st)
       (w\<lparr>effects := effects w @ [upload_call_gcs s (n, fp)],
          tmp_files := AList.delete (tmp_path_of n)
                         (AList.update (tmp_path_of n) (blob_data b) (tmp_files w))\<rparr>) = Some (Inr st', w')"
    have "p \<notin> fst ` set (AList.delete (tmp_path_of n)
                         (AList.update (tmp_path_of n) (blob_data b) (tmp_files w)))"
      using Cons.prems(2) by (simp add: keys_delete dom_update)
    with Cons.IH [OF run] show ?thesis by simp
  qed simp_all
qed

lemma upload_loop_gcs_cleaned:
  "upload_loop_gcs c s noc st w = Some (Inr st', w') \<Longrightarrow>
     \<forall>d\<in>set noc. tmp_path_of (fst d) \<notin> fst ` set (tmp_files w')"
proof (induction noc arbitrary: st w)
  case Nil
  then show ?case by simp
next
  case (Cons d noc)
  obtain n fp where d: "d = (n, fp)" by (cases d)
  from upload_loop_gcs_step [OF Cons.prems(1) [unfolded d]] show ?case
  proof (elim disjE exE conjE)
    fix b assume run: "upload_loop_gcs c s noc (case fp of None \<Rightarrow> st | Some m \<Rightarrow> AList.update n m st)
       (w\<lparr>effects := effects w @ [upload_call_gcs s (n, fp)],
          tmp_files := AList.delete (tmp_path_of n)
                         (AList.update (tmp_path_of n) (blob_data b) (tmp_files w))\<rparr>) = Some (Inr st', w')"
    have "tmp_path_of n \<notin> fst ` set (tmp_files w')"
      by (rule upload_loop_gcs_tmp_absent [OF run]) (simp add: delete_notin_dom)
    with Cons.IH [OF run] show ?thesis by (simp add: d)
  qed simp_all
qed

lemma upload_loop_gcs_Inl:
  "upload_loop_gcs c s noc st w = Some (Inl e, w') \<Longrightarrow>
     \<exists>k<length noc.
        (\<forall>d\<in>set (take k noc). completes c (upload_call_gcs s d))
      \<and> ((effects w' = effects w @ map (upload_call_gcs s) (take k noc)
            \<and> find (\<lambda>b. blob_name b = fst (noc ! k)) (doc_blobs w) = None)
         \<or> (effects w' = effects w @ map (upload_call_gcs s) (take (Suc k) noc)
            \<and> \<not> completes c (upload_call_gcs s (noc ! k))
            \<and> tmp_path_of (fst (noc ! k)) \<in> fst ` set (tmp_files w')))"
proof (induction noc arbitrary: st w)
  case Nil
  then show ?case by simp
next
  case (Cons d noc)
  obtain n fp where d: "d = (n, fp)" by (cases d)
  from upload_loop_gcs_step [OF Cons.prems [unfolded d]] show ?case
  proof (elim disjE exE conjE)
    assume "find (\<lambda>b. blob_name b = n) (doc_blobs w) = None" "w' = w"
    then show ?thesis by (intro exI [of _ 0]) (simp add: d)
  next
    fix b e'
    assume "\<not> completes c (upload_call_gcs s (n, fp))"
      "w' = w\<lparr>effects := effects w @ [upload_call_gcs s (n, fp)],
               tmp_files := AList.update (tmp_path_of n) (blob_data b) (tmp_files w)\<rparr>"
    then show ?thesis by (intro exI [of _ 0]) (simp add: d dom_update)
  next
    fix b
    assume cp: "completes c (upload_call_gcs s (n, fp))"
      and run: "upload_loop_gcs c s noc (case fp of None \<Rightarrow> st | Some m \<Rightarrow> AList.update n m st)
         (w\<lparr>effects := effects w @ [upload_call_gcs s (n, fp)],
          tmp_files := AList.delete (tmp_path_of n)
                         (AList.update (tmp_path_of n) (blob_data b) (tmp_files w))\<rparr>)
          = Some (Inl e, w')"
    from Cons.IH [OF run] obtain k where k: "k < length noc"
      "\<forall>d\<in>set (take k noc). completes c (upload_call_gcs s d)"
      "(effects w' = (effects w @ [upload_call_gcs s (n, fp)]) @ map (upload_call_gcs s) (take k noc)
            \<and> find (\<lambda>b. blob_name b = fst (noc ! k)) (doc_blobs w) = None)
         \<or> (effects w' = (effects w @ [upload_call_gcs s (n, fp)]) @ map (upload_call_gcs s) (take (Suc k) noc)
            \<and> \<not> completes c (upload_call_gcs s (noc ! k))
            \<and> tmp_path_of (fst (noc ! k)) \<in> fst ` set (tmp_files w'))"
      by auto
    show ?thesis
      using k cp by (intro exI [of _ "Suc k"]) (auto simp: d)
  qed
qed

lemma upload_loop_gcs_effects:
  assumes "upload_loop_gcs c s noc st w = Some (r, w')"
  shows "\<exists>k\<le>length noc. effects w' = effects w @ map (upload_call_gcs s) (take k noc)"
proof (cases r)
  case (Inl e)
  from upload_loop_gcs_Inl [OF assms [unfolded Inl]] obtain k where
    "k < length noc"
    "effects w' = effects w @ map (upload_call_gcs s) (take k noc)
       \<or> effects w' = effects w @ map (upload_call_gcs s) (take (Suc k) noc)"
    by blast
  then show ?thesis
    by (metis Suc_leI less_imp_le_nat)
next
  case (Inr st')
  from upload_loop_gcs_Inr [OF assms [unfolded Inr]] show ?thesis
    by (intro exI [of _ "length noc"]) simp
qed

lemma load_or_create_store_gcs_frame:
  assumes "load_or_create_store_gcs c w = (r, w1)"
  shows "doc_blobs w1 = doc_blobs w" "index_state_blob w1 = index_state_blob w"
    "bucket_exists w1 = bucket_exists w" "tmp_files w1 = tmp_files w"
    "printed w1 = printed w" "GOOGLE_API_KEY w1 = GOOGLE_API_KEY w"
    "GEMINI_API_KEY w1 = GEMINI_API_KEY w" "uploads (effects w1) = uploads (effects w)"
    "filter is_save (effects w1) = filter is_save (effects w)"
  using assms
  by (auto simp: load_or_create_store_gcs_def save_store_name_to_gcs_def Let_def uploads_def
      split: if_splits sum.splits)

lemma incremental_index_gcs_ready:
  assumes "gcs_ready c w s w1 st"
  shows "incremental_index_gcs c w =
     (let cands = list_candidate_blobs (doc_blobs w1);
          w2 = w1\<lparr>printed := printed w1
                    @ map (\<lambda>d. (spec_classify st (fst d) (snd d), fst d)) cands\<rparr>
      in if new_or_changed_gcs st cands = [] then Some (Inr (), w2)
         else (case upload_loop_gcs c s (new_or_changed_gcs st cands) st w2 of
                 None \<Rightarrow> None
               | Some (Inl e, w3) \<Rightarrow> Some (Inl e, w3)
               | Some (Inr st', w3) \<Rightarrow> Some (Inr (), save_index_state_to_gcs st' w3)))"
  using assms
  by (simp add: gcs_ready_def incremental_index_gcs_def detect_gcs_spec Let_def)

lemma map_of_commit_all_gcs_other:
  "n \<notin> fst ` set ds \<Longrightarrow> map_of (commit_all_gcs ds st) n = map_of st n"
proof (induction ds arbitrary: st)
  case Nil
  show ?case by (simp add: commit_all_gcs_def)
next
  case (Cons d ds)
  obtain k fp where d: "d = (k, fp)" by (cases d)
  from Cons.prems have "n \<noteq> k" "n \<notin> fst ` set ds" by (auto simp: d)
  with Cons.IH show ?case
    by (cases fp) (simp_all add: d commit_all_gcs_Cons update_conv')
qed

lemma map_of_commit_all_gcs_Some:
  "distinct (map fst ds) \<Longrightarrow> (n, Some m) \<in> set ds \<Longrightarrow>
   map_of (commit_all_gcs ds st) n = Some m"
proof (induction ds arbitrary: st)
  case Nil
  then show ?case by simp
next
  case (Cons d ds)
  obtain k fp where d: "d = (k, fp)" by (cases d)
  show ?case
  proof (cases "(n, Some m) = d")
    case True
    with Cons.prems d have "n \<notin> fst ` set ds" by auto
    with True d show ?thesis
      by (auto simp: commit_all_gcs_Cons map_of_commit_all_gcs_other update_conv')
  next
    case False
    with Cons.prems have "(n, Some m) \<in> set ds" "distinct (map fst ds)" by auto
    from Cons.IH [OF this(2) this(1)] show ?thesis by (simp add: d commit_all_gcs_Cons)
  qed
qed

lemma map_of_commit_all_gcs_None:
  "distinct (map fst ds) \<Longrightarrow> (n, None) \<in> set ds \<Longrightarrow>
   map_of (commit_all_gcs ds st) n = map_of st n"
proof (induction ds arbitrary: st)
  case Nil
  then show ?case by simp
next
  case (Cons d ds)
  obtain k fp where d: "d = (k, fp)" by (cases d)
  show ?case
  proof (cases "(n, None) = d")
    case True
    with Cons.prems d have "n \<notin> fst ` set ds" by auto
    with True d show ?thesis
      by (simp add: commit_all_gcs_Cons map_of_commit_all_gcs_other)
  next
    case False
    with Cons.prems have in_ds: "(n, None) \<in> set ds" and dd: "distinct (map fst ds)" by auto
    from in_ds have "n \<in> fst ` set ds" by (force simp: image_iff)
    with Cons.prems(1) d have "n \<noteq> k" by auto
    with Cons.IH [OF dd in_ds] show ?thesis
      by (cases fp) (simp_all add: d commit_all_gcs_Cons update_conv')
  qed
qed

lemma commit_all_gcs_keeps_keys:
  "map_of st n \<noteq> None \<Longrightarrow> map_of (commit_all_gcs ds st) n \<noteq> None"
proof (induction ds arbitrary: st)
  case Nil
  then show ?case by (simp add: commit_all_gcs_def)
next
  case (Cons d ds)
  obtain k fp where d: "d = (k, fp)" by (cases d)
  have "map_of (case fp of None \<Rightarrow> st | Some m \<Rightarrow> AList.update k m st) n \<noteq> None"
    using Cons.prems by (cases fp) (simp_all add: update_conv')
  from Cons.IH [OF this] show ?case by (simp add: d commit_all_gcs_Cons)
qed

lemma distinct_commit_all_gcs:
  "distinct (map fst st) \<Longrightarrow> distinct (map fst (commit_all_gcs ds st))"
proof (induction ds arbitrary: st)
  case Nil
  then show ?case by (simp add: commit_all_gcs_def)
next
  case (Cons d ds)
  obtain k fp where d: "d = (k, fp)" by (cases d)
  have "distinct (map fst (case fp of None \<Rightarrow> st | Some m \<Rightarrow> AList.update k m st))"
    using Cons.prems by (cases fp) (simp_all add: distinct_update)
  from Cons.IH [OF this] show ?case by (simp add: d commit_all_gcs_Cons)
qed

lemma list_candidate_blobs_names:
  "fst ` set (list_candidate_blobs blobs) \<subseteq> blob_name ` set blobs"
  by (induction blobs) auto

lemma distinct_list_candidate_blobs:
  "distinct (map blob_name blobs) \<Longrightarrow> distinct (map fst (list_candidate_blobs blobs))"
proof (induction blobs)
  case Nil
  show ?case by simp
next
  case (Cons b blobs)
  then show ?case using list_candidate_blobs_names [of blobs] by auto
qed

lemma distinct_new_or_changed_gcs:
  "distinct (map fst cands) \<Longrightarrow> distinct (map fst (new_or_changed_gcs st cands))"
  by (simp add: new_or_changed_gcs_def distinct_map_filter)

lemma load_index_state_from_gcs_distinct:
  "load_index_state_from_gcs w = Inr st \<Longrightarrow> distinct (map fst st)"
  by (auto simp: load_index_state_from_gcs_def json_loads_distinct split: option.splits)

lemma load_index_state_distinct:
  "load_index_state w = Inr st \<Longrightarrow> distinct (map fst st)"
  by (auto simp: load_index_state_def json_loads_distinct split: option.splits)

lemma load_saved_gcs:
  "distinct (map fst st) \<Longrightarrow>
   load_index_state_from_gcs (save_index_state_to_gcs st w) = Inr (sort_key fst st)"
  by (simp add: load_index_state_from_gcs_def save_index_state_to_gcs_def Let_def json_loads_dumps)

lemma spec_classify_cong:
  "map_of L n = map_of L' n \<Longrightarrow> spec_classify L n fp = spec_classify L' n fp"
  by (simp add: spec_classify_map_of)

lemma spec_classify_SKIP_iff:
  "spec_classify L n fp = SKIP \<longleftrightarrow> (\<exists>m. fp = Some m \<and> map_of L n = Some m)"
  by (auto simp: spec_classify_map_of split: option.splits)

text \<open>After a successful run, the ledger that the next run loads.\<close>

lemma gcs_run_ok_ledger:
  assumes ready: "gcs_ready c w s w1 st"
    and run: "incremental_index_gcs c w = Some (Inr (), w')"
  shows "\<exists>L'. load_index_state_from_gcs w' = Inr L' \<and> distinct (map fst L')
           \<and> map_of L' = map_of (commit_all_gcs
                  (new_or_changed_gcs st (list_candidate_blobs (doc_blobs w1))) st)
           \<and> doc_blobs w' = doc_blobs w1"
proof -
  let ?cands = "list_candidate_blobs (doc_blobs w1)"
  let ?noc = "new_or_changed_gcs st ?cands"
  let ?w2 = "w1\<lparr>printed := printed w1
                    @ map (\<lambda>d. (spec_classify st (fst d) (snd d), fst d)) ?cands\<rparr>"
  from ready have ld: "load_index_state_from_gcs w1 = Inr st" by (simp add: gcs_ready_def)
  then have dst: "distinct (map fst st)" by (rule load_index_state_from_gcs_distinct)
  show ?thesis
  proof (cases "?noc = []")
    case True
    with run have "w' = ?w2" by (simp add: incremental_index_gcs_ready [OF ready] Let_def)
    with ld True dst show ?thesis
      by (simp add: load_index_state_from_gcs_def commit_all_gcs_def)
  next
    case False
    with run obtain st' w3 where loop: "upload_loop_gcs c s ?noc st ?w2 = Some (Inr st', w3)"
      and w': "w' = save_index_state_to_gcs st' w3"
      by (auto simp: incremental_index_gcs_ready [OF ready] Let_def
          split: option.splits sum.splits prod.splits)
    from upload_loop_gcs_Inr [OF loop] have st': "st' = commit_all_gcs ?noc st" by simp
    with dst have d': "distinct (map fst st')" by (simp add: distinct_commit_all_gcs)
    from upload_loop_gcs_frame [OF loop] have "doc_blobs w3 = doc_blobs w1" by simp
    with w' d' st' show ?thesis
      by (simp add: load_saved_gcs map_of_sort_key distinct_keys_sort)
         (simp add: save_index_state_to_gcs_def Let_def)
  qed
qed

text \<open>A run whose ledger classifies every document as unchanged uploads nothing.\<close>

lemma gcs_run_all_skip:
  assumes ld: "load_index_state_from_gcs w = Inr L"
    and skip: "new_or_changed_gcs L (list_candidate_blobs (doc_blobs w)) = []"
  shows "\<exists>r w''. incremental_index_gcs c w = Some (r, w'')
           \<and> uploads (effects w'') = uploads (effects w)
           \<and> filter is_save (effects w'') = filter is_save (effects w)
           \<and> index_state_blob w'' = index_state_blob w"
proof (cases "make_client w")
  case (Inl e)
  then show ?thesis by (simp add: incremental_index_gcs_def)
next
  case mc: (Inr u)
  show ?thesis
  proof (cases "get_bucket w")
    case (Inl e)
    with mc show ?thesis by (simp add: incremental_index_gcs_def)
  next
    case gb: (Inr u')
    obtain r1 w1 where st: "load_or_create_store_gcs c w = (r1, w1)"
      by (cases "load_or_create_store_gcs c w")
    note fr = load_or_create_store_gcs_frame [OF st]
    show ?thesis
    proof (cases r1)
      case (Inl e)
      with mc gb st fr show ?thesis by (simp add: incremental_index_gcs_def)
    next
      case (Inr s)
      from ld fr have ld1: "load_index_state_from_gcs w1 = Inr L"
        by (simp add: load_index_state_from_gcs_def)
      from mc gb st Inr ld1 have "gcs_ready c w s w1 L" by (simp add: gcs_ready_def)
      from incremental_index_gcs_ready [OF this] skip fr show ?thesis
        by (simp add: Let_def)
    qed
  qed
qed

lemma upload_loop_local_step:
  assumes "upload_loop_local c s ((f, p, h) # rest) st w = Some (r, w')"
  shows "(\<exists>e. \<not> completes c (upload_call_local s (f, p, h)) \<and> r = Inl e
            \<and> w' = w\<lparr>effects := effects w @ [upload_call_local s (f, p, h)]\<rparr>)
       \<or> (completes c (upload_call_local s (f, p, h))
            \<and> upload_loop_local c s rest (AList.update f h st)
                 (w\<lparr>effects := effects w @ [upload_call_local s (f, p, h)]\<rparr>) = Some (r, w'))"
proof (cases "upload_to_file_search_store c p s f")
  case (Inl e)
  with assms show ?thesis
    by (auto simp: Let_def upload_call_local_def completes_def)
next
  case (Inr operation)
  show ?thesis
  proof (cases "wait_done c operation")
    case None
    with assms Inr show ?thesis by (simp add: Let_def)
  next
    case (Some res)
    show ?thesis
    proof (cases res)
      case (Inl e)
      with assms Inr Some show ?thesis
        by (auto simp: Let_def upload_call_local_def completes_def)
    next
      case op': (Inr op')
      with Some have "op_done c op'" by (auto dest: wait_done_done)
      with assms Inr Some op' show ?thesis
        by (simp add: Let_def upload_call_local_def completes_def)
    qed
  qed
qed

lemma upload_loop_local_frame:
  "upload_loop_local c s noc st w = Some (r, w') \<Longrightarrow>
     index_state_file w' = index_state_file w \<and> store_name_file w' = store_name_file w
   \<and> data_dir w' = data_dir w \<and> cwd w' = cwd w
   \<and> printed w' = printed w \<and> GOOGLE_API_KEY w' = GOOGLE_API_KEY w
   \<and> GEMINI_API_KEY w' = GEMINI_API_KEY w"
proof (induction noc arbitrary: st w)
  case Nil
  then show ?case by simp
next
  case (Cons d noc)
  obtain f p h where d: "d = (f, p, h)" by (cases d)
  from upload_loop_local_step [OF Cons.prems [unfolded d]] show ?case
  proof (elim disjE exE conjE)
    assume "upload_loop_local c s noc (AList.update f h st)
       (w\<lparr>effects := effects w @ [upload_call_local s (f, p, h)]\<rparr>) = Some (r, w')"
    from Cons.IH [OF this] show ?thesis by simp
  qed simp_all
qed

lemma commit_all_local_Cons:
  "commit_all_local ((f, p, h) # ds) st = commit_all_local ds (AList.update f h st)"
  by (simp add: commit_all_local_def)

lemma upload_loop_local_Inr:
  "upload_loop_local c s noc st w = Some (Inr st', w') \<Longrightarrow>
     st' = commit_all_local noc st
   \<and> effects w' = effects w @ map (upload_call_local s) noc
   \<and> (\<forall>d\<in>set noc. completes c (upload_call_local s d))"
proof (induction noc arbitrary: st w)
  case Nil
  then show ?case by (simp add: commit_all_local_def)
next
  case (Cons d noc)
  obtain f p h where d: "d = (f, p, h)" by (cases d)
  from upload_loop_local_step [OF Cons.prems [unfolded d]] show ?case
  proof (elim disjE exE conjE)
    assume cp: "completes c (upload_call_local s (f, p, h))"
      and "upload_loop_local c s noc (AList.update f h st)
       (w\<lparr>effects := effects w @ [upload_call_local s (f, p, h)]\<rparr>) = Some (Inr st', w')"
    from Cons.IH [OF this(2)] cp show ?thesis by (simp add: d commit_all_local_Cons)
  qed simp_all
qed

lemma upload_loop_local_Inl:
  "upload_loop_local c s noc st w = Some (Inl e, w') \<Longrightarrow>
     \<exists>k<length noc.
        (\<forall>d\<in>set (take k noc). completes c (upload_call_local s d))
      \<and> effects w' = effects w @ map (upload_call_local s) (take (Suc k) noc)
      \<and> \<not> completes c (upload_call_local s (noc ! k))"
proof (induction noc arbitrary: st w)
  case Nil
  then show ?case by simp
next
  case (Cons d noc)
  obtain f p h where d: "d = (f, p, h)" by (cases d)
  from upload_loop_local_step [OF Cons.prems [unfolded d]] show ?case
  proof (elim disjE exE conjE)
    fix e'
    assume "\<not> completes c (upload_call_local s (f, p, h))"
      "w' = w\<lparr>effects := effects w @ [upload_call_local s (f, p, h)]\<rparr>"
    then show ?thesis by (intro exI [of _ 0]) (simp add: d)
  next
    assume cp: "completes c (upload_call_local s (f, p, h))"
      and run: "upload_loop_local c s noc (AList.update f h st)
         (w\<lparr>effects := effects w @ [upload_call_local s (f, p, h)]\<rparr>) = Some (Inl e, w')"
    from Cons.IH [OF run] obtain k where k: "k < length noc"
      "\<forall>d\<in>set (take k noc). completes c (upload_call_local s d)"
      "effects w' = (effects w @ [upload_call_local s (f, p, h)])
                      @ map (upload_call_local s) (take (Suc k) noc)"
      "\<not> completes c (upload_call_local s (noc ! k))"
      by auto
    show ?thesis
      using k cp by (intro exI [of _ "Suc k"]) (auto simp: d)
  qed
qed

lemma upload_loop_local_effects:
  assumes "upload_loop_local c s noc st w = Some (r, w')"
  shows "\<exists>k\<le>length noc. effects w' = effects w @ map (upload_call_local s) (take k noc)"
proof (cases r)
  case (Inl e)
  from upload_loop_local_Inl [OF assms [unfolded Inl]] obtain k where
    "k < length noc"
    "effects w' = effects w @ map (upload_call_local s) (take (Suc k) noc)"
    by blast
  then show ?thesis
    by (metis Suc_leI)
next
  case (Inr st')
  from upload_loop_local_Inr [OF assms [unfolded Inr]] show ?thesis
    by (intro exI [of _ "length noc"]) simp
qed

lemma load_or_create_store_local_frame:
  assumes "load_or_create_store_local c dn w = (r, w1)"
  shows "data_dir w1 = data_dir w" "index_state_file w1 = index_state_file w"
    "cwd w1 = cwd w"
    "printed w1 = printed w" "GOOGLE_API_KEY w1 = GOOGLE_API_KEY w"
    "GEMINI_API_KEY w1 = GEMINI_API_KEY w" "uploads (effects w1) = uploads (effects w)"
    "filter is_save (effects w1) = filter is_save (effects w)"
  using assms
  by (auto simp: load_or_create_store_local_def Let_def uploads_def
      split: if_splits sum.splits)

lemma incremental_index_local_ready:
  assumes "local_ready c dn w s w1 st listing"
  shows "incremental_index_local c sha dn w =
     (let cands = local_candidates sha (path_join (cwd w1) ''data'') listing;
          w2 = w1\<lparr>printed := printed w1
                    @ map (\<lambda>d. (spec_classify st (fst d) (Some (snd (snd d))), fst d)) cands\<rparr>
      in if new_or_changed_local st cands = [] then Some (Inr (), w2)
         else (case upload_loop_local c s (new_or_changed_local st cands) st w2 of
                 None \<Rightarrow> None
               | Some (Inl e, w3) \<Rightarrow> Some (Inl e, w3)
               | Some (Inr st', w3) \<Rightarrow> Some (Inr (), save_index_state st' w3)))"
  using assms
  by (simp add: local_ready_def incremental_index_local_def detect_local_spec Let_def)

lemma map_of_commit_all_local_other:
  "n \<notin> fst ` set ds \<Longrightarrow> map_of (commit_all_local ds st) n = map_of st n"
proof (induction ds arbitrary: st)
  case Nil
  show ?case by (simp add: commit_all_local_def)
next
  case (Cons d ds)
  obtain f p h where d: "d = (f, p, h)" by (cases d)
  from Cons.prems have "n \<noteq> f" "n \<notin> fst ` set ds" by (auto simp: d)
  with Cons.IH show ?case
    by (simp add: d commit_all_local_Cons update_conv')
qed

lemma map_of_commit_all_local_in:
  "distinct (map fst ds) \<Longrightarrow> (f, p, h) \<in> set ds \<Longrightarrow>
   map_of (commit_all_local ds st) f = Some h"
proof (induction ds arbitrary: st)
  case Nil
  then show ?case by simp
next
  case (Cons d ds)
  obtain f' p' h' where d: "d = (f', p', h')" by (cases d)
  show ?case
  proof (cases "(f, p, h) = d")
    case True
    with Cons.prems d have "f \<notin> fst ` set ds" by auto
    with True d show ?thesis
      by (auto simp: commit_all_local_Cons map_of_commit_all_local_other update_conv')
  next
    case False
    with Cons.prems have "(f, p, h) \<in> set ds" "distinct (map fst ds)" by auto
    from Cons.IH [OF this(2) this(1)] show ?thesis by (simp add: d commit_all_local_Cons)
  qed
qed

lemma commit_all_local_keeps_keys:
  "map_of st n \<noteq> None \<Longrightarrow> map_of (commit_all_local ds st) n \<noteq> None"
proof (induction ds arbitrary: st)
  case Nil
  then show ?case by (simp add: commit_all_local_def)
next
  case (Cons d ds)
  obtain f p h where d: "d = (f, p, h)" by (cases d)
  have "map_of (AList.update f h st) n \<noteq> None"
    using Cons.prems by (simp add: update_conv')
  from Cons.IH [OF this] show ?case by (simp add: d commit_all_local_Cons)
qed

lemma distinct_commit_all_local:
  "distinct (map fst st) \<Longrightarrow> distinct (map fst (commit_all_local ds st))"
proof (induction ds arbitrary: st)
  case Nil
  then show ?case by (simp add: commit_all_local_def)
next
  case (Cons d ds)
  obtain f p h where d: "d = (f, p, h)" by (cases d)
  have "distinct (map fst (AList.update f h st))"
    using Cons.prems by (simp add: distinct_update)
  from Cons.IH [OF this] show ?case by (simp add: d commit_all_local_Cons)
qed

lemma distinct_local_candidates:
  "distinct (map entry_name listing) \<Longrightarrow>
   distinct (map fst (local_candidates sha dir listing))"
  by (simp add: local_candidates_def comp_def distinct_map_filter)

lemma distinct_new_or_changed_local:
  "distinct (map fst cands) \<Longrightarrow> distinct (map fst (new_or_changed_local st cands))"
  by (simp add: new_or_changed_local_def distinct_map_filter)

lemma load_saved_local:
  "distinct (map fst st) \<Longrightarrow>
   load_index_state (save_index_state st w) = Inr (sort_key fst st)"
  by (simp add: load_index_state_def save_index_state_def Let_def json_loads_dumps)

lemma local_run_ok_ledger:
  assumes ready: "local_ready c dn w s w1 st listing"
    and run: "incremental_index_local c sha dn w = Some (Inr (), w')"
  shows "\<exists>L'. load_index_state w' = Inr L' \<and> distinct (map fst L')
           \<and> map_of L' = map_of (commit_all_local (new_or_changed_local st
                  (local_candidates sha (path_join (cwd w1) ''data'') listing)) st)
           \<and> data_dir w' = Some listing \<and> cwd w' = cwd w1"
proof -
  let ?cands = "local_candidates sha (path_join (cwd w1) ''data'') listing"
  let ?noc = "new_or_changed_local st ?cands"
  let ?w2 = "w1\<lparr>printed := printed w1
                    @ map (\<lambda>d. (spec_classify st (fst d) (Some (snd (snd d))), fst d)) ?cands\<rparr>"
  from ready have ld: "load_index_state w1 = Inr st" and dd: "data_dir w1 = Some listing"
    by (simp_all add: local_ready_def)
  then have dst: "distinct (map fst st)" by (simp add: load_index_state_distinct)
  show ?thesis
  proof (cases "?noc = []")
    case True
    with run have "w' = ?w2" by (simp add: incremental_index_local_ready [OF ready] Let_def)
    with ld True dst dd show ?thesis
      by (simp add: load_index_state_def commit_all_local_def)
  next
    case False
    with run obtain st' w3 where loop: "upload_loop_local c s ?noc st ?w2 = Some (Inr st', w3)"
      and w': "w' = save_index_state st' w3"
      by (auto simp: incremental_index_local_ready [OF ready] Let_def
          split: option.splits sum.splits prod.splits)
    from upload_loop_local_Inr [OF loop] have st': "st' = commit_all_local ?noc st" by simp
    with dst have d': "distinct (map fst st')" by (simp add: distinct_commit_all_local)
    from upload_loop_local_frame [OF loop] dd
    have "data_dir w3 = Some listing" "cwd w3 = cwd w1" by simp_all
    with w' d' st' show ?thesis
      by (simp add: load_saved_local map_of_sort_key distinct_keys_sort)
         (simp add: save_index_state_def Let_def)
  qed
qed

lemma local_run_all_skip:
  assumes ld: "load_index_state w = Inr L"
    and skip: "\<And>listing. data_dir w = Some listing \<Longrightarrow>
       new_or_changed_local L (local_candidates sha (path_join (cwd w) ''data'') listing) = []"
  shows "\<exists>r w''. incremental_index_local c sha dn w = Some (r, w'')
           \<and> uploads (effects w'') = uploads (effects w)
           \<and> filter is_save (effects w'') = filter is_save (effects w)
           \<and> index_state_file w'' = index_state_file w"
proof (cases "make_client w")
  case (Inl e)
  then show ?thesis by (simp add: incremental_index_local_def)
next
  case mc: (Inr u)
  obtain r1 w1 where st: "load_or_create_store_local c dn w = (r1, w1)"
    by (cases "load_or_create_store_local c dn w")
  note fr = load_or_create_store_local_frame [OF st]
  show ?thesis
  proof (cases r1)
    case (Inl e)
    with mc st fr show ?thesis by (simp add: incremental_index_local_def)
  next
    case (Inr s)
    from ld fr have ld1: "load_index_state w1 = Inr L"
      by (simp add: load_index_state_def)
    show ?thesis
    proof (cases "data_dir w")
      case None
      with mc st Inr ld1 fr show ?thesis by (simp add: incremental_index_local_def)
    next
      case (Some listing)
      with mc st Inr ld1 fr have "local_ready c dn w s w1 L listing"
        by (simp add: local_ready_def)
      from incremental_index_local_ready [OF this, of sha] skip [OF Some] fr show ?thesis
        by (simp add: Let_def)
    qed
  qed
qed

section \<open>Summaries of a run\<close>

lemma find_candidate_blob:
  "d \<in> set (list_candidate_blobs blobs) \<Longrightarrow> find (\<lambda>b. blob_name b = fst d) blobs \<noteq> None"
proof -
  assume "d \<in> set (list_candidate_blobs blobs)"
  then have "fst d \<in> fst ` set (list_candidate_blobs blobs)" by (rule imageI)
  with list_candidate_blobs_names [of blobs] have "fst d \<in> blob_name ` set blobs" by blast
  then show ?thesis by (auto simp: find_None_iff)
qed

lemma uploads_append_calls_gcs:
  "uploads (es @ map (upload_call_gcs s) ds) = uploads es @ map (upload_call_gcs s) ds"
  by (induction ds rule: rev_induct) (simp_all add: uploads_def upload_call_gcs_def)

lemma uploads_append_calls_local:
  "uploads (es @ map (upload_call_local s) ds) = uploads es @ map (upload_call_local s) ds"
  by (induction ds rule: rev_induct) (simp_all add: uploads_def upload_call_local_def)

lemma saves_append_calls_gcs:
  "filter is_save (es @ map (upload_call_gcs s) ds) = filter is_save es"
  by (induction ds rule: rev_induct) (simp_all add: upload_call_gcs_def)

lemma saves_append_calls_local:
  "filter is_save (es @ map (upload_call_local s) ds) = filter is_save es"
  by (induction ds rule: rev_induct) (simp_all add: upload_call_local_def)

lemma gcs_run_summary:
  assumes ready: "gcs_ready c g s g1 st"
    and run: "incremental_index_gcs c g = Some (r, g')"
  defines "noc \<equiv> new_or_changed_gcs st (list_candidate_blobs (doc_blobs g1))"
  shows "(r = Inr () \<and> noc = [] \<and> effects g' = effects g1
            \<and> index_state_blob g' = index_state_blob g1 \<and> tmp_files g' = tmp_files g1)
       \<or> (r = Inr () \<and> noc \<noteq> [] \<and> (\<forall>d\<in>set noc. completes c (upload_call_gcs s d))
            \<and> effects g' = effects g1 @ map (upload_call_gcs s) noc
                 @ [Save_Index_State (json_dumps (commit_all_gcs noc st))]
            \<and> index_state_blob g' = Some (json_dumps (commit_all_gcs noc st))
            \<and> (\<forall>d\<in>set noc. tmp_path_of (fst d) \<notin> fst ` set (tmp_files g')))
       \<or> (\<exists>e k. r = Inl e \<and> k < length noc
            \<and> (\<forall>d\<in>set (take k noc). completes c (upload_call_gcs s d))
            \<and> \<not> completes c (upload_call_gcs s (noc ! k))
            \<and> effects g' = effects g1 @ map (upload_call_gcs s) (take (Suc k) noc)
            \<and> index_state_blob g' = index_state_blob g1
            \<and> tmp_path_of (fst (noc ! k)) \<in> fst ` set (tmp_files g'))"
    and "printed g' = printed g1
           @ map (\<lambda>d. (spec_classify st (fst d) (snd d), fst d)) (list_candidate_blobs (doc_blobs g1))"
    and "doc_blobs g' = doc_blobs g1"
proof -
  let ?cands = "list_candidate_blobs (doc_blobs g1)"
  let ?w2 = "g1\<lparr>printed := printed g1
                    @ map (\<lambda>d. (spec_classify st (fst d) (snd d), fst d)) ?cands\<rparr>"
  note unf = incremental_index_gcs_ready [OF ready]
  have all: "((r = Inr () \<and> noc = [] \<and> effects g' = effects g1
            \<and> index_state_blob g' = index_state_blob g1 \<and> tmp_files g' = tmp_files g1)
       \<or> (r = Inr () \<and> noc \<noteq> [] \<and> (\<forall>d\<in>set noc. completes c (upload_call_gcs s d))
            \<and> effects g' = effects g1 @ map (upload_call_gcs s) noc
                 @ [Save_Index_State (json_dumps (commit_all_gcs noc st))]
            \<and> index_state_blob g' = Some (json_dumps (commit_all_gcs noc st))
            \<and> (\<forall>d\<in>set noc. tmp_path_of (fst d) \<notin> fst ` set (tmp_files g')))
       \<or> (\<exists>e k. r = Inl e \<and> k < length noc
            \<and> (\<forall>d\<in>set (take k noc). completes c (upload_call_gcs s d))
            \<and> \<not> completes c (upload_call_gcs s (noc ! k))
            \<and> effects g' = effects g1 @ map (upload_call_gcs s) (take (Suc k) noc)
            \<and> index_state_blob g' = index_state_blob g1
            \<and> tmp_path_of (fst (noc ! k)) \<in> fst ` set (tmp_files g')))
      \<and> printed g' = printed ?w2 \<and> doc_blobs g' = doc_blobs g1"
  proof (cases "noc = []")
    case True
    with run have "g' = ?w2" "r = Inr ()" by (auto simp: unf Let_def noc_def)
    with True show ?thesis by simp
  next
    case False
    with run obtain r3 w3 where loop: "upload_loop_gcs c s noc st ?w2 = Some (r3, w3)"
      by (auto simp: unf Let_def noc_def split: option.splits)
    note fr = upload_loop_gcs_frame [OF loop]
    show ?thesis
    proof (cases r3)
      case (Inl e)
      with run loop False have r: "r = Inl e" "g' = w3" by (auto simp: unf Let_def noc_def)
      from upload_loop_gcs_Inl [OF loop [unfolded Inl]] obtain k where k: "k < length noc"
        "\<forall>d\<in>set (take k noc). completes c (upload_call_gcs s d)"
        "(effects w3 = effects ?w2 @ map (upload_call_gcs s) (take k noc)
            \<and> find (\<lambda>b. blob_name b = fst (noc ! k)) (doc_blobs ?w2) = None)
         \<or> (effects w3 = effects ?w2 @ map (upload_call_gcs s) (take (Suc k) noc)
            \<and> \<not> completes c (upload_call_gcs s (noc ! k))
            \<and> tmp_path_of (fst (noc ! k)) \<in> fst ` set (tmp_files w3))"
        by blast
      from k(1) have "noc ! k \<in> set ?cands"
        using nth_mem [of k noc] by (auto simp: noc_def new_or_changed_gcs_def)
      from find_candidate_blob [OF this]
      have "find (\<lambda>b. blob_name b = fst (noc ! k)) (doc_blobs ?w2) \<noteq> None" by simp
      with k(3) have "effects w3 = effects g1 @ map (upload_call_gcs s) (take (Suc k) noc)"
        "\<not> completes c (upload_call_gcs s (noc ! k))"
        "tmp_path_of (fst (noc ! k)) \<in> fst ` set (tmp_files w3)"
        by auto
      with r k(1,2) fr show ?thesis by auto
    next
      case (Inr st')
      with run loop False have r: "r = Inr ()" "g' = save_index_state_to_gcs st' w3"
        by (auto simp: unf Let_def noc_def)
      from upload_loop_gcs_Inr [OF loop [unfolded Inr]]
      have a: "st' = commit_all_gcs noc st"
        "effects w3 = effects g1 @ map (upload_call_gcs s) noc"
        "\<forall>d\<in>set noc. completes c (upload_call_gcs s d)"
        by simp_all
      from upload_loop_gcs_cleaned [OF loop [unfolded Inr]]
      have b: "\<forall>d\<in>set noc. tmp_path_of (fst d) \<notin> fst ` set (tmp_files w3)" .
      from r a b False fr show ?thesis
        by (simp add: save_index_state_to_gcs_def Let_def)
    qed
  qed
  from all show "(r = Inr () \<and> noc = [] \<and> effects g' = effects g1
            \<and> index_state_blob g' = index_state_blob g1 \<and> tmp_files g' = tmp_files g1)
       \<or> (r = Inr () \<and> noc \<noteq> [] \<and> (\<forall>d\<in>set noc. completes c (upload_call_gcs s d))
            \<and> effects g' = effects g1 @ map (upload_call_gcs s) noc
                 @ [Save_Index_State (json_dumps (commit_all_gcs noc st))]
            \<and> index_state_blob g' = Some (json_dumps (commit_all_gcs noc st))
            \<and> (\<forall>d\<in>set noc. tmp_path_of (fst d) \<notin> fst ` set (tmp_files g')))
       \<or> (\<exists>e k. r = Inl e \<and> k < length noc
            \<and> (\<forall>d\<in>set (take k noc). completes c (upload_call_gcs s d))
            \<and> \<not> completes c (upload_call_gcs s (noc ! k))
            \<and> effects g' = effects g1 @ map (upload_call_gcs s) (take (Suc k) noc)
            \<and> index_state_blob g' = index_state_blob g1
            \<and> tmp_path_of (fst (noc ! k)) \<in> fst ` set (tmp_files g'))" by blast
  from all show "printed g' = printed g1
           @ map (\<lambda>d. (spec_classify st (fst d) (snd d), fst d)) (list_candidate_blobs (doc_blobs g1))"
    by simp
  from all show "doc_blobs g' = doc_blobs g1" by simp
qed

lemma local_run_summary:
  assumes ready: "local_ready c dn w s w1 st listing"
    and run: "incremental_index_local c sha dn w = Some (r, w')"
  defines "noc \<equiv> new_or_changed_local st
                    (local_candidates sha (path_join (cwd w1) ''data'') listing)"
  shows "(r = Inr () \<and> noc = [] \<and> effects w' = effects w1
            \<and> index_state_file w' = index_state_file w1)
       \<or> (r = Inr () \<and> noc \<noteq> [] \<and> (\<forall>d\<in>set noc. completes c (upload_call_local s d))
            \<and> effects w' = effects w1 @ map (upload_call_local s) noc
                 @ [Save_Index_State (json_dumps (commit_all_local noc st))]
            \<and> index_state_file w' = Some (json_dumps (commit_all_local noc st)))
       \<or> (\<exists>e k. r = Inl e \<and> k < length noc
            \<and> (\<forall>d\<in>set (take k noc). completes c (upload_call_local s d))
            \<and> \<not> completes c (upload_call_local s (noc ! k))
            \<and> effects w' = effects w1 @ map (upload_call_local s) (take (Suc k) noc)
            \<and> index_state_file w' = index_state_file w1)"
    and "printed w' = printed w1
           @ map (\<lambda>d. (spec_classify st (fst d) (Some (snd (snd d))), fst d))
               (local_candidates sha (path_join (cwd w1) ''data'') listing)"
    and "data_dir w' = Some listing"
proof -
  let ?cands = "local_candidates sha (path_join (cwd w1) ''data'') listing"
  let ?w2 = "w1\<lparr>printed := printed w1
                    @ map (\<lambda>d. (spec_classify st (fst d) (Some (snd (snd d))), fst d)) ?cands\<rparr>"
  note unf = incremental_index_local_ready [OF ready, of sha]
  from ready have dd: "data_dir w1 = Some listing" by (simp add: local_ready_def)
  have all: "((r = Inr () \<and> noc = [] \<and> effects w' = effects w1
            \<and> index_state_file w' = index_state_file w1)
       \<or> (r = Inr () \<and> noc \<noteq> [] \<and> (\<forall>d\<in>set noc. completes c (upload_call_local s d))
            \<and> effects w' = effects w1 @ map (upload_call_local s) noc
                 @ [Save_Index_State (json_dumps (commit_all_local noc st))]
            \<and> index_state_file w' = Some (json_dumps (commit_all_local noc st)))
       \<or> (\<exists>e k. r = Inl e \<and> k < length noc
            \<and> (\<forall>d\<in>set (take k noc). completes c (upload_call_local s d))
            \<and> \<not> completes c (upload_call_local s (noc ! k))
            \<and> effects w' = effects w1 @ map (upload_call_local s) (take (Suc k) noc)
            \<and> index_state_file w' = index_state_file w1))
      \<and> printed w' = printed ?w2 \<and> data_dir w' = Some listing"
  proof (cases "noc = []")
    case True
    with run have "w' = ?w2" "r = Inr ()" by (auto simp: unf Let_def noc_def)
    with True dd show ?thesis by simp
  next
    case False
    with run obtain r3 w3 where loop: "upload_loop_local c s noc st ?w2 = Some (r3, w3)"
      by (auto simp: unf Let_def noc_def split: option.splits)
    note fr = upload_loop_local_frame [OF loop]
    show ?thesis
    proof (cases r3)
      case (Inl e)
      with run loop False have r: "r = Inl e" "w' = w3" by (auto simp: unf Let_def noc_def)
      from upload_loop_local_Inl [OF loop [unfolded Inl]] obtain k where k: "k < length noc"
        "\<forall>d\<in>set (take k noc). completes c (upload_call_local s d)"
        "effects w3 = effects ?w2 @ map (upload_call_local s) (take (Suc k) noc)"
        "\<not> completes c (upload_call_local s (noc ! k))"
        by blast
      with r fr dd show ?thesis by auto
    next
      case (Inr st')
      with run loop False have r: "r = Inr ()" "w' = save_index_state st' w3"
        by (auto simp: unf Let_def noc_def)
      from upload_loop_local_Inr [OF loop [unfolded Inr]]
      have a: "st' = commit_all_local noc st"
        "effects w3 = effects w1 @ map (upload_call_local s) noc"
        "\<forall>d\<in>set noc. completes c (upload_call_local s d)"
        by simp_all
      from r a False fr dd show ?thesis
        by (simp add: save_index_state_def Let_def)
    qed
  qed
  from all show "(r = Inr () \<and> noc = [] \<and> effects w' = effects w1
            \<and> index_state_file w' = index_state_file w1)
       \<or> (r = Inr () \<and> noc \<noteq> [] \<and> (\<forall>d\<in>set noc. completes c (upload_call_local s d))
            \<and> effects w' = effects w1 @ map (upload_call_local s) noc
                 @ [Save_Index_State (json_dumps (commit_all_local noc st))]
            \<and> index_state_file w' = Some (json_dumps (commit_all_local noc st)))
       \<or> (\<exists>e k. r = Inl e \<and> k < length noc
            \<and> (\<forall>d\<in>set (take k noc). completes c (upload_call_local s d))
            \<and> \<not> completes c (upload_call_local s (noc ! k))
            \<and> effects w' = effects w1 @ map (upload_call_local s) (take (Suc k) noc)
            \<and> index_state_file w' = index_state_file w1)" by blast
  from all show "printed w' = printed w1
           @ map (\<lambda>d. (spec_classify st (fst d) (Some (snd (snd d))), fst d))
               (local_candidates sha (path_join (cwd w1) ''data'') listing)"
    by simp
  from all show "data_dir w' = Some listing" by simp
qed

text \<open>A run that ends without an exception has reached its detection loop.\<close>

lemma gcs_ok_ready:
  "incremental_index_gcs c g = Some (Inr u, g') \<Longrightarrow> \<exists>s g1 st. gcs_ready c g s g1 st"
  by (auto simp: incremental_index_gcs_def gcs_ready_def
      split: sum.splits prod.splits)

lemma local_ok_ready:
  "incremental_index_local c sha dn w = Some (Inr u, w') \<Longrightarrow>
   \<exists>s w1 st listing. local_ready c dn w s w1 st listing"
  by (auto simp: incremental_index_local_def local_ready_def
      split: sum.splits prod.splits option.splits)

section \<open>The example runs\<close>

lemma example_bucket_run:
  "incremental_index_gcs example_client example_bucket = Some (Inr (), example_bucket_after)"
  by code_simp

lemma example_bucket_ready_ok:
  "gcs_ready example_client example_bucket ''fileSearchStores/s1'' example_bucket_ready []"
  by code_simp

lemma example_bucket_run2:
  "incremental_index_gcs example_client example_bucket_after = Some (Inr (), example_bucket_after2)"
  by code_simp

lemma example_dir_ready_ok:
  "local_ready example_client ''my_docs_store'' example_dir ''stores/s0'' example_dir []
     [\<lparr>entry_name = ''a.txt'', entry_is_file = True, entry_contents = ''y''\<rparr>,
      \<lparr>entry_name = ''sub.pdf'', entry_is_file = False, entry_contents = ''''\<rparr>,
      \<lparr>entry_name = ''notes.md'', entry_is_file = True, entry_contents = ''''\<rparr>]"
  by code_simp

lemma example_dir_run:
  "incremental_index_local example_client example_sha ''my_docs_store'' example_dir
     = Some (Inr (), example_dir_after)"
  by code_simp

lemma hashed_bucket_run:
  "incremental_index_gcs example_client hashed_bucket = Some (Inr (), hashed_bucket_after)"
  by code_simp

lemma hashed_bucket_run2:
  "incremental_index_gcs failing_client hashed_bucket_after
     = Some (Inr (), hashed_bucket_after
               \<lparr>printed := printed hashed_bucket_after
                  @ [(SKIP, ''PdfDocuments/c.pdf''), (SKIP, ''PdfDocuments/a.txt'')]\<rparr>)"
  by code_simp

lemma example_dir_run2:
  "incremental_index_local failing_client example_sha ''other name'' example_dir_after
     = Some (Inr (), example_dir_after
               \<lparr>printed := printed example_dir_after @ [(SKIP, ''a.txt'')]\<rparr>)"
  by code_simp

lemma stale_bucket_ready_ok:
  "gcs_ready example_client stale_bucket ''fileSearchStores/s1'' stale_bucket_ready
     [(''PdfDocuments/c.pdf'', ''h0'')]"
  by code_simp

lemma stale_bucket_run:
  "incremental_index_gcs example_client stale_bucket = Some (Inr (), stale_bucket_after)"
  by code_simp

lemma stale_bucket_after_ledger:
  "load_index_state_from_gcs stale_bucket_after
     = Inr [(''PdfDocuments/a.txt'', ''h1''), (''PdfDocuments/c.pdf'', ''h0'')]"
  by code_simp

section \<open>The ledger after a successful run\<close>

lemma same_key_same_entry:
  "distinct (map fst xs) \<Longrightarrow> x \<in> set xs \<Longrightarrow> y \<in> set xs \<Longrightarrow> fst x = fst y \<Longrightarrow> x = y"
  by (metis eq_key_imp_eq_value prod.collapse)

text \<open>
  With distinct identifiers and every fingerprint present, the ledger after the commits
  of the upload list classifies every enumerated document as unchanged.
\<close>

lemma all_skip_after_commit_gcs:
  assumes d: "distinct (map fst cands)"
    and fp: "\<forall>d\<in>set cands. snd d \<noteq> None"
    and L': "map_of L' = map_of (commit_all_gcs (new_or_changed_gcs st cands) st)"
  shows "new_or_changed_gcs L' cands = []"
proof -
  let ?noc = "new_or_changed_gcs st cands"
  have dn: "distinct (map fst ?noc)" using d by (rule distinct_new_or_changed_gcs)
  have "spec_classify L' (fst x) (snd x) = SKIP" if x: "x \<in> set cands" for x
  proof -
    from fp x obtain m where m: "snd x = Some m" by auto
    show ?thesis
    proof (cases "x \<in> set ?noc")
      case True
      then have "(fst x, Some m) \<in> set ?noc" using m by (metis prod.collapse)
      from map_of_commit_all_gcs_Some [OF dn this] L' m show ?thesis
        by (simp add: spec_classify_SKIP_iff)
    next
      case False
      with x have sk: "spec_classify st (fst x) (snd x) = SKIP"
        by (simp add: new_or_changed_gcs_def)
      have "fst x \<notin> fst ` set ?noc"
      proof
        assume "fst x \<in> fst ` set ?noc"
        then obtain y where y: "y \<in> set ?noc" "fst y = fst x" by auto
        then have "y \<in> set cands" by (simp add: new_or_changed_gcs_def)
        from same_key_same_entry [OF d this x y(2)] y(1) False show False by simp
      qed
      from map_of_commit_all_gcs_other [OF this] sk L' m show ?thesis
        by (simp add: spec_classify_SKIP_iff)
    qed
  qed
  then show ?thesis by (simp add: new_or_changed_gcs_def filter_empty_conv)
qed

lemma all_skip_after_commit_local:
  assumes d: "distinct (map fst cands)"
    and L': "map_of L' = map_of (commit_all_local (new_or_changed_local st cands) st)"
  shows "new_or_changed_local L' cands = []"
proof -
  let ?noc = "new_or_changed_local st cands"
  have dn: "distinct (map fst ?noc)" using d by (rule distinct_new_or_changed_local)
  have "spec_classify L' (fst x) (Some (snd (snd x))) = SKIP" if x: "x \<in> set cands" for x
  proof (cases "x \<in> set ?noc")
    case True
    then have "(fst x, fst (snd x), snd (snd x)) \<in> set ?noc" by simp
    from map_of_commit_all_local_in [OF dn this] L' show ?thesis
      by (simp add: spec_classify_SKIP_iff)
  next
    case False
    with x have sk: "spec_classify st (fst x) (Some (snd (snd x))) = SKIP"
      by (simp add: new_or_changed_local_def)
    have "fst x \<notin> fst ` set ?noc"
    proof
      assume "fst x \<in> fst ` set ?noc"
      then obtain y where y: "y \<in> set ?noc" "fst y = fst x" by auto
      then have "y \<in> set cands" by (simp add: new_or_changed_local_def)
      from same_key_same_entry [OF d this x y(2)] y(1) False show False by simp
    qed
    from map_of_commit_all_local_other [OF this] sk L' show ?thesis
      by (simp add: spec_classify_SKIP_iff)
  qed
  then show ?thesis by (simp add: new_or_changed_local_def filter_empty_conv)
qed

section \<open>The claims\<close>

text \<open>
  Claim C4.  For a ledger \<open>L\<close> with distinct keys (every Python dictionary), saving it
  and loading it back, in the working directory or in the bucket, returns the
  dictionary with the entries of \<open>L\<close>: the same mapping, order aside.  The text
  written is the encoder's rendering of the items in sorted key order, and two
  dictionaries that are equal as mappings are written as the same text.
\<close>

theorem C4_ledger_round_trip:
  assumes "distinct (map fst L)" "distinct (map fst L')" "map_of L' = map_of L"
  shows "load_index_state (save_index_state L w) = Inr (sort_key fst L)
       \<and> load_index_state_from_gcs (save_index_state_to_gcs L g) = Inr (sort_key fst L)
       \<and> map_of (sort_key fst L) = map_of L
       \<and> index_state_file (save_index_state L w) = Some (iterencode_dict (sort_key fst L))
       \<and> index_state_blob (save_index_state_to_gcs L g) = Some (iterencode_dict (sort_key fst L))
       \<and> sorted (map fst (sort_key fst L)) \<and> distinct (map fst (sort_key fst L))
       \<and> json_dumps L' = json_dumps L"
proof -
  have "sort_key fst L' = sort_key fst L"
    using assms by (intro sort_key_unique) simp_all
  then have "json_dumps L' = json_dumps L" by (simp add: json_dumps_def)
  moreover have "load_index_state (save_index_state L w) = Inr (sort_key fst L)"
    using assms(1) by (simp add: load_index_state_def save_index_state_def Let_def json_loads_dumps)
  moreover have "load_index_state_from_gcs (save_index_state_to_gcs L g) = Inr (sort_key fst L)"
    using assms(1)
    by (simp add: load_index_state_from_gcs_def save_index_state_to_gcs_def Let_def json_loads_dumps)
  moreover have "index_state_file (save_index_state L w) = Some (iterencode_dict (sort_key fst L))"
    by (simp add: save_index_state_def Let_def json_dumps_def)
  moreover have "index_state_blob (save_index_state_to_gcs L g) = Some (iterencode_dict (sort_key fst L))"
    by (simp add: save_index_state_to_gcs_def Let_def json_dumps_def)
  ultimately show ?thesis
    using assms(1) by (simp add: map_of_sort_key distinct_keys_sort)
qed

theorem C4_ledger_round_trip_witness:
  "load_index_state (save_index_state [(''b.txt'', ''h2''), (''a.txt'', ''h1'')] example_dir)
     = Inr [(''a.txt'', ''h1''), (''b.txt'', ''h2'')]
   \<and> load_index_state_from_gcs
        (save_index_state_to_gcs [(''b.txt'', ''h2''), (''a.txt'', ''h1'')] example_bucket)
     = Inr [(''a.txt'', ''h1''), (''b.txt'', ''h2'')]
   \<and> json_dumps [(''a.txt'', ''h1''), (''b.txt'', ''h2'')]
     = json_dumps [(''b.txt'', ''h2''), (''a.txt'', ''h1'')]"
proof -
  have m: "map_of [(''a.txt'', ''h1''), (''b.txt'', ''h2'')]
         = map_of [(''b.txt'', ''h2''), (''a.txt'', ''h1'')]"
    by (auto simp: fun_eq_iff)
  have d: "distinct (map fst [(''b.txt'', ''h2''), (''a.txt'', ''h1'')])"
          "distinct (map fst [(''a.txt'', ''h1''), (''b.txt'', ''h2'')])" by simp_all
  show ?thesis
    using C4_ledger_round_trip [OF d m, of example_dir example_bucket] by simp
qed



text \<open>
  Claim C1 (amended).  In every run, each enumerated document \<open>(ident, fp)\<close> gets the
  label the specification gives it against the loaded ledger \<open>L\<close>: \<open>NEW\<close> if \<open>ident\<close>
  is not a key of \<open>L\<close>; \<open>CHANGED\<close> if it is a key and \<open>fp\<close> is absent or differs from
  \<open>L[ident]\<close>; \<open>SKIP\<close> (unchanged) otherwise.  A document with an absent fingerprint
  is therefore never unchanged: it is \<open>CHANGED\<close> when it has a ledger entry and \<open>NEW\<close>
  when it has none.  The upload list holds exactly the documents that are not
  unchanged, and the uploads of a run are the requests for an initial segment of that
  list, in order: the whole list when the run ends without an exception.
\<close>

theorem C1_classification:
  "fst (detect_gcs state cands [] [])
     = map (\<lambda>d. (spec_classify state (fst d) (snd d), fst d)) cands
   \<and> snd (detect_gcs state cands [] [])
     = filter (\<lambda>d. spec_classify state (fst d) (snd d) \<noteq> SKIP) cands
   \<and> fst (detect_local sha dir state listing [] [])
     = map (\<lambda>d. (spec_classify state (fst d) (Some (snd (snd d))), fst d))
         (local_candidates sha dir listing)
   \<and> snd (detect_local sha dir state listing [] [])
     = filter (\<lambda>d. spec_classify state (fst d) (Some (snd (snd d))) \<noteq> SKIP)
         (local_candidates sha dir listing)
   \<and> spec_classify state ident None = (if ident \<in> fst ` set state then CHANGED else NEW)
   \<and> (gcs_ready c g s g1 st \<and> incremental_index_gcs c g = Some (r, g') \<longrightarrow>
        printed g' = printed g
          @ map (\<lambda>d. (spec_classify st (fst d) (snd d), fst d))
              (list_candidate_blobs (doc_blobs g))
      \<and> (\<exists>k\<le>length (new_or_changed_gcs st (list_candidate_blobs (doc_blobs g))).
            uploads (effects g') = uploads (effects g)
              @ map (upload_call_gcs s)
                  (take k (new_or_changed_gcs st (list_candidate_blobs (doc_blobs g))))
          \<and> (r = Inr () \<longrightarrow>
                k = length (new_or_changed_gcs st (list_candidate_blobs (doc_blobs g))))))
   \<and> (local_ready c dn w s' w1 st' entries
        \<and> incremental_index_local c sha' dn w = Some (r', w') \<longrightarrow>
        printed w' = printed w
          @ map (\<lambda>d. (spec_classify st' (fst d) (Some (snd (snd d))), fst d))
              (local_candidates sha' (path_join (cwd w) ''data'') entries)
      \<and> (\<exists>k\<le>length (new_or_changed_local st'
                        (local_candidates sha' (path_join (cwd w) ''data'') entries)).
            uploads (effects w') = uploads (effects w)
              @ map (upload_call_local s')
                  (take k (new_or_changed_local st'
                     (local_candidates sha' (path_join (cwd w) ''data'') entries)))
          \<and> (r' = Inr () \<longrightarrow>
                k = length (new_or_changed_local st'
                     (local_candidates sha' (path_join (cwd w) ''data'') entries)))))"
proof (intro conjI impI)
  show "fst (detect_gcs state cands [] [])
     = map (\<lambda>d. (spec_classify state (fst d) (snd d), fst d)) cands"
    by (simp add: detect_gcs_spec)
  show "snd (detect_gcs state cands [] [])
     = filter (\<lambda>d. spec_classify state (fst d) (snd d) \<noteq> SKIP) cands"
    by (simp add: detect_gcs_spec new_or_changed_gcs_def)
  show "fst (detect_local sha dir state listing [] [])
     = map (\<lambda>d. (spec_classify state (fst d) (Some (snd (snd d))), fst d))
         (local_candidates sha dir listing)"
    by (simp add: detect_local_spec)
  show "snd (detect_local sha dir state listing [] [])
     = filter (\<lambda>d. spec_classify state (fst d) (Some (snd (snd d))) \<noteq> SKIP)
         (local_candidates sha dir listing)"
    by (simp add: detect_local_spec new_or_changed_local_def)
  show "spec_classify state ident None = (if ident \<in> fst ` set state then CHANGED else NEW)"
    by (simp add: spec_classify_def)
next
  assume a: "gcs_ready c g s g1 st \<and> incremental_index_gcs c g = Some (r, g')"
  then have ready: "gcs_ready c g s g1 st" and run: "incremental_index_gcs c g = Some (r, g')"
    by simp_all
  from ready have st: "load_or_create_store_gcs c g = (Inr s, g1)" by (simp add: gcs_ready_def)
  note fr = load_or_create_store_gcs_frame [OF st]
  let ?noc = "new_or_changed_gcs st (list_candidate_blobs (doc_blobs g))"
  from gcs_run_summary(2) [OF ready run] fr
  show "printed g' = printed g
          @ map (\<lambda>d. (spec_classify st (fst d) (snd d), fst d))
              (list_candidate_blobs (doc_blobs g))"
    by simp
  from gcs_run_summary(1) [OF ready run] fr
  have "(r = Inr () \<and> ?noc = [] \<and> effects g' = effects g1)
      \<or> (r = Inr () \<and> effects g' = (effects g1 @ map (upload_call_gcs s) ?noc)
              @ [Save_Index_State (json_dumps (commit_all_gcs ?noc st))])
      \<or> (\<exists>e k. r = Inl e \<and> k < length ?noc
            \<and> effects g' = effects g1 @ map (upload_call_gcs s) (take (Suc k) ?noc))"
    by auto
  then show "\<exists>k\<le>length ?noc.
            uploads (effects g') = uploads (effects g) @ map (upload_call_gcs s) (take k ?noc)
          \<and> (r = Inr () \<longrightarrow> k = length ?noc)"
  proof (elim disjE exE conjE)
    assume "r = Inr ()" "?noc = []" "effects g' = effects g1"
    with fr show ?thesis by simp
  next
    assume "r = Inr ()" "effects g' = (effects g1 @ map (upload_call_gcs s) ?noc)
              @ [Save_Index_State (json_dumps (commit_all_gcs ?noc st))]"
    then have "uploads (effects g') = uploads (effects g) @ map (upload_call_gcs s) ?noc"
      using fr(8) uploads_append_calls_gcs [of "effects g1" s ?noc]
      by (simp add: uploads_def)
    then show ?thesis by (intro exI [of _ "length ?noc"]) simp
  next
    fix e k
    assume "r = Inl e" "k < length ?noc"
      "effects g' = effects g1 @ map (upload_call_gcs s) (take (Suc k) ?noc)"
    then show ?thesis
      using fr(8) by (intro exI [of _ "Suc k"]) (simp add: uploads_append_calls_gcs)
  qed
next
  assume a: "local_ready c dn w s' w1 st' entries
        \<and> incremental_index_local c sha' dn w = Some (r', w')"
  then have ready: "local_ready c dn w s' w1 st' entries"
    and run: "incremental_index_local c sha' dn w = Some (r', w')"
    by simp_all
  from ready have st: "load_or_create_store_local c dn w = (Inr s', w1)"
    by (simp add: local_ready_def)
  note fr = load_or_create_store_local_frame [OF st]
  let ?noc = "new_or_changed_local st'
                 (local_candidates sha' (path_join (cwd w) ''data'') entries)"
  from local_run_summary(2) [OF ready run] fr
  show "printed w' = printed w
          @ map (\<lambda>d. (spec_classify st' (fst d) (Some (snd (snd d))), fst d))
              (local_candidates sha' (path_join (cwd w) ''data'') entries)"
    by simp
  from local_run_summary(1) [OF ready run] fr
  have "(r' = Inr () \<and> ?noc = [] \<and> effects w' = effects w1)
      \<or> (r' = Inr () \<and> effects w' = (effects w1 @ map (upload_call_local s') ?noc)
              @ [Save_Index_State (json_dumps (commit_all_local ?noc st'))])
      \<or> (\<exists>e k. r' = Inl e \<and> k < length ?noc
            \<and> effects w' = effects w1 @ map (upload_call_local s') (take (Suc k) ?noc))"
    by auto
  then show "\<exists>k\<le>length ?noc.
            uploads (effects w') = uploads (effects w) @ map (upload_call_local s') (take k ?noc)
          \<and> (r' = Inr () \<longrightarrow> k = length ?noc)"
  proof (elim disjE exE conjE)
    assume "r' = Inr ()" "?noc = []" "effects w' = effects w1"
    with fr show ?thesis by simp
  next
    assume "r' = Inr ()" "effects w' = (effects w1 @ map (upload_call_local s') ?noc)
              @ [Save_Index_State (json_dumps (commit_all_local ?noc st'))]"
    then have "uploads (effects w') = uploads (effects w) @ map (upload_call_local s') ?noc"
      using fr(7) uploads_append_calls_local [of "effects w1" s' ?noc]
      by (simp add: uploads_def)
    then show ?thesis by (intro exI [of _ "length ?noc"]) simp
  next
    fix e k
    assume "r' = Inl e" "k < length ?noc"
      "effects w' = effects w1 @ map (upload_call_local s') (take (Suc k) ?noc)"
    then show ?thesis
      using fr(7) by (intro exI [of _ "Suc k"]) (simp add: uploads_append_calls_local)
  qed
qed

theorem C1_classification_witness:
  "fst (detect_gcs [(''a.txt'', ''h1''), (''c.pdf'', ''h0'')]
          [(''a.txt'', Some ''h1''), (''b.txt'', Some ''h2''), (''c.pdf'', None)] [] [])
     = [(SKIP, ''a.txt''), (NEW, ''b.txt''), (CHANGED, ''c.pdf'')]
   \<and> snd (detect_gcs [(''a.txt'', ''h1''), (''c.pdf'', ''h0'')]
          [(''a.txt'', Some ''h1''), (''b.txt'', Some ''h2''), (''c.pdf'', None)] [] [])
     = [(''b.txt'', Some ''h2''), (''c.pdf'', None)]
   \<and> gcs_ready example_client example_bucket ''fileSearchStores/s1'' example_bucket_ready []
   \<and> incremental_index_gcs example_client example_bucket = Some (Inr (), example_bucket_after)
   \<and> printed example_bucket_after
     = [(NEW, ''PdfDocuments/c.pdf''), (NEW, ''PdfDocuments/a.txt'')]
   \<and> uploads (effects example_bucket_after)
     = [Upload ''/tmp/c.pdf'' ''fileSearchStores/s1'' ''c.pdf'',
        Upload ''/tmp/a.txt'' ''fileSearchStores/s1'' ''a.txt'']
   \<and> incremental_index_local example_client example_sha ''my_docs_store'' example_dir
     = Some (Inr (), example_dir_after)
   \<and> printed example_dir_after = [(NEW, ''a.txt'')]
   \<and> uploads (effects example_dir_after)
     = [Upload ''/home/u/data/a.txt'' ''stores/s0'' ''a.txt'']"
proof -
  have a: "spec_classify [(''a.txt'', ''h1''), (''c.pdf'', ''h0'')] ''a.txt'' (Some ''h1'') = SKIP"
    "spec_classify [(''a.txt'', ''h1''), (''c.pdf'', ''h0'')] ''b.txt'' (Some ''h2'') = NEW"
    "spec_classify [(''a.txt'', ''h1''), (''c.pdf'', ''h0'')] ''c.pdf'' None = CHANGED"
    by (simp_all add: spec_classify_def)
  have b: "printed example_bucket_after
             = [(NEW, ''PdfDocuments/c.pdf''), (NEW, ''PdfDocuments/a.txt'')]"
    "uploads (effects example_bucket_after)
     = [Upload ''/tmp/c.pdf'' ''fileSearchStores/s1'' ''c.pdf'',
        Upload ''/tmp/a.txt'' ''fileSearchStores/s1'' ''a.txt'']"
    "printed example_dir_after = [(NEW, ''a.txt'')]"
    "uploads (effects example_dir_after)
     = [Upload ''/home/u/data/a.txt'' ''stores/s0'' ''a.txt'']"
    by (simp_all add: example_bucket_after_def example_dir_after_def uploads_def)
  from C1_classification
    [where state = "[(''a.txt'', ''h1''), (''c.pdf'', ''h0'')]"
       and cands = "[(''a.txt'', Some ''h1''), (''b.txt'', Some ''h2''), (''c.pdf'', None)]"
       and sha = example_sha and dir = "''/home/u/data''" and listing = "[]"
       and ident = "''c.pdf''"
       and c = example_client and g = example_bucket and s = "''fileSearchStores/s1''"
       and ?g1.0 = example_bucket_ready and st = "[]" and r = "Inr ()"
       and g' = example_bucket_after
       and dn = "''my_docs_store''" and w = example_dir and s' = "''stores/s0''"
       and ?w1.0 = example_dir and st' = "[]"
       and entries =
         "[\<lparr>entry_name = ''a.txt'', entry_is_file = True, entry_contents = ''y''\<rparr>,
           \<lparr>entry_name = ''sub.pdf'', entry_is_file = False, entry_contents = ''''\<rparr>,
           \<lparr>entry_name = ''notes.md'', entry_is_file = True, entry_contents = ''''\<rparr>]"
       and sha' = example_sha and r' = "Inr ()" and w' = example_dir_after]
  show ?thesis
    using a b example_bucket_ready_ok example_bucket_run example_dir_ready_ok example_dir_run
    by simp
qed

text \<open>
  As the claim words its last clause it fails: a document with no fingerprint and no
  ledger entry is printed as \<open>[NEW]\<close>, not as \<open>[CHANGED]\<close>.
\<close>

theorem C1_absent_fingerprint_counterexample:
  "incremental_index_gcs example_client example_bucket = Some (Inr (), example_bucket_after)
   \<and> load_index_state_from_gcs example_bucket_ready = Inr []
   \<and> list_candidate_blobs (doc_blobs example_bucket_ready)
     = [(''PdfDocuments/c.pdf'', None), (''PdfDocuments/a.txt'', Some ''h1'')]
   \<and> hd (printed example_bucket_after) = (NEW, ''PdfDocuments/c.pdf'')
   \<and> fst (detect_gcs [] [(''PdfDocuments/c.pdf'', None)] [] [])
     \<noteq> [(CHANGED, ''PdfDocuments/c.pdf'')]"
proof -
  have "load_index_state_from_gcs example_bucket_ready = Inr []" by code_simp
  moreover have "list_candidate_blobs (doc_blobs example_bucket_ready)
     = [(''PdfDocuments/c.pdf'', None), (''PdfDocuments/a.txt'', Some ''h1'')]" by code_simp
  moreover have "hd (printed example_bucket_after) = (NEW, ''PdfDocuments/c.pdf'')"
    by (simp add: example_bucket_after_def)
  ultimately show ?thesis using example_bucket_run by simp
qed

text \<open>
  Claim C2 (amended).  If a run ends without an exception, the identifiers of the corpus
  are distinct and (in the bucket) every enumerated document has a fingerprint, then a
  second run on the world the first one left, with any client, returns and requests no
  upload.  In the local indexer every document has a fingerprint.
\<close>

theorem C2_idempotence:
  "(incremental_index_gcs c g = Some (Inr (), g')
      \<and> distinct (map blob_name (doc_blobs g))
      \<and> (\<forall>d\<in>set (list_candidate_blobs (doc_blobs g)). snd d \<noteq> None)
    \<longrightarrow> (\<exists>r2 g''. incremental_index_gcs c2 g' = Some (r2, g'')
            \<and> uploads (effects g'') = uploads (effects g')))
   \<and> (incremental_index_local c sha dn w = Some (Inr (), w')
      \<and> data_dir w = Some listing \<and> distinct (map entry_name listing)
    \<longrightarrow> (\<exists>r2 w''. incremental_index_local c2 sha dn2 w' = Some (r2, w'')
            \<and> uploads (effects w'') = uploads (effects w')))"
proof (intro conjI impI)
  assume a: "incremental_index_gcs c g = Some (Inr (), g')
      \<and> distinct (map blob_name (doc_blobs g))
      \<and> (\<forall>d\<in>set (list_candidate_blobs (doc_blobs g)). snd d \<noteq> None)"
  then have run: "incremental_index_gcs c g = Some (Inr (), g')" by simp
  from gcs_ok_ready [OF run] obtain s g1 st where ready: "gcs_ready c g s g1 st" by blast
  then have "load_or_create_store_gcs c g = (Inr s, g1)" by (simp add: gcs_ready_def)
  from load_or_create_store_gcs_frame(1) [OF this] have docs: "doc_blobs g1 = doc_blobs g" .
  from gcs_run_ok_ledger [OF ready run] docs obtain L' where
    L': "load_index_state_from_gcs g' = Inr L'"
      "map_of L' = map_of (commit_all_gcs
          (new_or_changed_gcs st (list_candidate_blobs (doc_blobs g))) st)"
      "doc_blobs g' = doc_blobs g"
    by auto
  from a have "distinct (map fst (list_candidate_blobs (doc_blobs g)))"
    by (simp add: distinct_list_candidate_blobs)
  from all_skip_after_commit_gcs [OF this _ L'(2)] a
  have "new_or_changed_gcs L' (list_candidate_blobs (doc_blobs g')) = []"
    by (simp add: L'(3))
  from gcs_run_all_skip [OF L'(1) this, of c2]
  show "\<exists>r2 g''. incremental_index_gcs c2 g' = Some (r2, g'')
            \<and> uploads (effects g'') = uploads (effects g')"
    by blast
next
  assume a: "incremental_index_local c sha dn w = Some (Inr (), w')
      \<and> data_dir w = Some listing \<and> distinct (map entry_name listing)"
  then have run: "incremental_index_local c sha dn w = Some (Inr (), w')" by simp
  from local_ok_ready [OF run] obtain s w1 st listing'
    where ready: "local_ready c dn w s w1 st listing'" by blast
  then have st: "load_or_create_store_local c dn w = (Inr s, w1)"
    and dd: "data_dir w1 = Some listing'" by (simp_all add: local_ready_def)
  note fr = load_or_create_store_local_frame [OF st]
  from dd fr a have same: "listing' = listing" by simp
  from local_run_ok_ledger [OF ready run] fr same obtain L' where
    L': "load_index_state w' = Inr L'"
      "map_of L' = map_of (commit_all_local (new_or_changed_local st
          (local_candidates sha (path_join (cwd w) ''data'') listing)) st)"
      "data_dir w' = Some listing" "cwd w' = cwd w"
    by auto
  from a have "distinct (map fst (local_candidates sha (path_join (cwd w) ''data'') listing))"
    by (simp add: distinct_local_candidates)
  from all_skip_after_commit_local [OF this L'(2)]
  have "new_or_changed_local L'
          (local_candidates sha (path_join (cwd w') ''data'') l) = []"
    if "data_dir w' = Some l" for l
    using that L'(3,4) by simp
  from local_run_all_skip [OF L'(1) this, of c2 dn2]
  show "\<exists>r2 w''. incremental_index_local c2 sha dn2 w' = Some (r2, w'')
            \<and> uploads (effects w'') = uploads (effects w')"
    by blast
qed

theorem C2_idempotence_witness:
  "incremental_index_gcs example_client hashed_bucket = Some (Inr (), hashed_bucket_after)
   \<and> distinct (map blob_name (doc_blobs hashed_bucket))
   \<and> list_candidate_blobs (doc_blobs hashed_bucket)
     = [(''PdfDocuments/c.pdf'', Some ''h3''), (''PdfDocuments/a.txt'', Some ''h1'')]
   \<and> (\<exists>r2 g''. incremental_index_gcs failing_client hashed_bucket_after = Some (r2, g'')
          \<and> uploads (effects g'') = uploads (effects hashed_bucket_after))
   \<and> incremental_index_local example_client example_sha ''my_docs_store'' example_dir
     = Some (Inr (), example_dir_after)
   \<and> (\<exists>r2 w''. incremental_index_local failing_client example_sha ''other name''
                   example_dir_after = Some (r2, w'')
          \<and> uploads (effects w'') = uploads (effects example_dir_after))"
proof -
  have cands: "list_candidate_blobs (doc_blobs hashed_bucket)
     = [(''PdfDocuments/c.pdf'', Some ''h3''), (''PdfDocuments/a.txt'', Some ''h1'')]"
    by code_simp
  have d: "distinct (map blob_name (doc_blobs hashed_bucket))"
    by (simp add: hashed_bucket_def example_bucket_def)
  have l: "data_dir example_dir = Some
     [\<lparr>entry_name = ''a.txt'', entry_is_file = True, entry_contents = ''y''\<rparr>,
      \<lparr>entry_name = ''sub.pdf'', entry_is_file = False, entry_contents = ''''\<rparr>,
      \<lparr>entry_name = ''notes.md'', entry_is_file = True, entry_contents = ''''\<rparr>]"
    by (simp add: example_dir_def)
  from C2_idempotence
    [where c = example_client and g = hashed_bucket and g' = hashed_bucket_after
       and ?c2.0 = failing_client and sha = example_sha and dn = "''my_docs_store''"
       and w = example_dir and w' = example_dir_after and ?dn2.0 = "''other name''"
       and listing =
         "[\<lparr>entry_name = ''a.txt'', entry_is_file = True, entry_contents = ''y''\<rparr>,
           \<lparr>entry_name = ''sub.pdf'', entry_is_file = False, entry_contents = ''''\<rparr>,
           \<lparr>entry_name = ''notes.md'', entry_is_file = True, entry_contents = ''''\<rparr>]"]
  show ?thesis
    using cands d l hashed_bucket_run example_dir_run by simp
qed

text \<open>
  As stated the claim fails in the bucket indexer: a document without a fingerprint is
  uploaded again by the second run although nothing changed.
\<close>

theorem C2_second_run_uploads_counterexample:
  "incremental_index_gcs example_client example_bucket = Some (Inr (), example_bucket_after)
   \<and> incremental_index_gcs example_client example_bucket_after
     = Some (Inr (), example_bucket_after2)
   \<and> doc_blobs example_bucket_after = doc_blobs example_bucket
   \<and> uploads (effects example_bucket_after)
     = [Upload ''/tmp/c.pdf'' ''fileSearchStores/s1'' ''c.pdf'',
        Upload ''/tmp/a.txt'' ''fileSearchStores/s1'' ''a.txt'']
   \<and> uploads (effects example_bucket_after2)
     = [Upload ''/tmp/c.pdf'' ''fileSearchStores/s1'' ''c.pdf'',
        Upload ''/tmp/a.txt'' ''fileSearchStores/s1'' ''a.txt'',
        Upload ''/tmp/c.pdf'' ''fileSearchStores/s1'' ''c.pdf'']"
  using example_bucket_run example_bucket_run2
  by (simp add: example_bucket_after_def example_bucket_after2_def uploads_def)

text \<open>
  Claim C3 (amended).  For a document whose fingerprint is absent, a successful
  upload-and-poll cycle commits nothing: the ledger in memory is the one before the
  cycle.  After a run that ends without an exception (identifiers distinct), the
  persisted ledger holds for that document what the loaded ledger held: no entry if
  there was none, the old fingerprint otherwise.  On the next run the document is on
  the upload list again, classified \<open>NEW\<close> when it has no entry and \<open>CHANGED\<close> when
  it has one, never unchanged.
\<close>

theorem C3_absent_fingerprint_not_committed:
  "(upload_loop_gcs c s [(n, None)] st g0 = Some (Inr st', g0') \<longrightarrow>
      st' = st \<and> completes c (upload_call_gcs s (n, None)))
   \<and> (gcs_ready c g s g1 st \<and> incremental_index_gcs c g = Some (Inr (), g')
        \<and> distinct (map blob_name (doc_blobs g))
        \<and> (n, None) \<in> set (list_candidate_blobs (doc_blobs g))
      \<longrightarrow> completes c (upload_call_gcs s (n, None))
          \<and> (\<exists>L'. load_index_state_from_gcs g' = Inr L'
                \<and> map_of L' n = map_of st n
                \<and> spec_classify L' n None = (if map_of st n = None then NEW else CHANGED)
                \<and> (n, None) \<in> set (new_or_changed_gcs L'
                                      (list_candidate_blobs (doc_blobs g')))))"
proof (intro conjI impI)
  assume "upload_loop_gcs c s [(n, None)] st g0 = Some (Inr st', g0')"
  from upload_loop_gcs_Inr [OF this]
  show "st' = st" "completes c (upload_call_gcs s (n, None))"
    by (simp_all add: commit_all_gcs_def)
next
  assume a: "gcs_ready c g s g1 st \<and> incremental_index_gcs c g = Some (Inr (), g')
        \<and> distinct (map blob_name (doc_blobs g))
        \<and> (n, None) \<in> set (list_candidate_blobs (doc_blobs g))"
  then have ready: "gcs_ready c g s g1 st"
    and run: "incremental_index_gcs c g = Some (Inr (), g')" by simp_all
  from ready have "load_or_create_store_gcs c g = (Inr s, g1)" by (simp add: gcs_ready_def)
  from load_or_create_store_gcs_frame(1) [OF this] have docs: "doc_blobs g1 = doc_blobs g" .
  let ?cands = "list_candidate_blobs (doc_blobs g)"
  let ?noc = "new_or_changed_gcs st ?cands"
  from a have dc: "distinct (map fst ?cands)" by (simp add: distinct_list_candidate_blobs)
  then have dn: "distinct (map fst ?noc)" by (rule distinct_new_or_changed_gcs)
  from a have inn: "(n, None) \<in> set ?noc"
    by (simp add: new_or_changed_gcs_def spec_classify_def)
  then have ne: "?noc \<noteq> []" by auto
  from gcs_run_summary(1) [OF ready run] docs ne inn
  show cp: "completes c (upload_call_gcs s (n, None))" by auto
  from gcs_run_ok_ledger [OF ready run] docs obtain L' where
    L': "load_index_state_from_gcs g' = Inr L'"
      "map_of L' = map_of (commit_all_gcs ?noc st)" "doc_blobs g' = doc_blobs g"
    by auto
  from map_of_commit_all_gcs_None [OF dn inn] L'(2)
  have m: "map_of L' n = map_of st n" by simp
  then have cl: "spec_classify L' n None = (if map_of st n = None then NEW else CHANGED)"
    by (simp add: spec_classify_map_of split: option.splits)
  with a L'(3) have "(n, None) \<in> set (new_or_changed_gcs L'
                                      (list_candidate_blobs (doc_blobs g')))"
    by (simp add: new_or_changed_gcs_def)
  with L'(1) m cl
  show "\<exists>L'. load_index_state_from_gcs g' = Inr L'
                \<and> map_of L' n = map_of st n
                \<and> spec_classify L' n None = (if map_of st n = None then NEW else CHANGED)
                \<and> (n, None) \<in> set (new_or_changed_gcs L'
                                      (list_candidate_blobs (doc_blobs g')))"
    by blast
qed

theorem C3_absent_fingerprint_not_committed_witness:
  "upload_loop_gcs example_client ''fileSearchStores/s1'' [(''PdfDocuments/c.pdf'', None)]
       [(''PdfDocuments/c.pdf'', ''h0'')] stale_bucket_ready
     = Some (Inr [(''PdfDocuments/c.pdf'', ''h0'')],
             stale_bucket_ready
               \<lparr>effects := [Create_Store ''my_docs_store'',
                             Upload ''/tmp/c.pdf'' ''fileSearchStores/s1'' ''c.pdf'']\<rparr>)
   \<and> gcs_ready example_client stale_bucket ''fileSearchStores/s1'' stale_bucket_ready
        [(''PdfDocuments/c.pdf'', ''h0'')]
   \<and> incremental_index_gcs example_client stale_bucket = Some (Inr (), stale_bucket_after)
   \<and> completes example_client (Upload ''/tmp/c.pdf'' ''fileSearchStores/s1'' ''c.pdf'')
   \<and> (\<exists>L'. load_index_state_from_gcs stale_bucket_after = Inr L'
         \<and> map_of L' ''PdfDocuments/c.pdf'' = Some ''h0''
         \<and> spec_classify L' ''PdfDocuments/c.pdf'' None = CHANGED)"
proof -
  have loop: "upload_loop_gcs example_client ''fileSearchStores/s1''
       [(''PdfDocuments/c.pdf'', None)] [(''PdfDocuments/c.pdf'', ''h0'')] stale_bucket_ready
     = Some (Inr [(''PdfDocuments/c.pdf'', ''h0'')],
             stale_bucket_ready
               \<lparr>effects := [Create_Store ''my_docs_store'',
                             Upload ''/tmp/c.pdf'' ''fileSearchStores/s1'' ''c.pdf'']\<rparr>)"
    by code_simp
  have d: "distinct (map blob_name (doc_blobs stale_bucket))"
    by (simp add: stale_bucket_def example_bucket_def)
  have cands: "list_candidate_blobs (doc_blobs stale_bucket)
     = [(''PdfDocuments/c.pdf'', None), (''PdfDocuments/a.txt'', Some ''h1'')]"
    by code_simp
  have uc: "upload_call_gcs ''fileSearchStores/s1'' (''PdfDocuments/c.pdf'', None)
     = Upload ''/tmp/c.pdf'' ''fileSearchStores/s1'' ''c.pdf''"
    by code_simp
  from C3_absent_fingerprint_not_committed
    [where c = example_client and s = "''fileSearchStores/s1''"
       and n = "''PdfDocuments/c.pdf''" and st = "[(''PdfDocuments/c.pdf'', ''h0'')]"
       and ?g0.0 = stale_bucket_ready and st' = "[(''PdfDocuments/c.pdf'', ''h0'')]"
       and g0' = "stale_bucket_ready
               \<lparr>effects := [Create_Store ''my_docs_store'',
                             Upload ''/tmp/c.pdf'' ''fileSearchStores/s1'' ''c.pdf'']\<rparr>"
       and g = stale_bucket and ?g1.0 = stale_bucket_ready and g' = stale_bucket_after]
  show ?thesis
    using loop d cands uc stale_bucket_ready_ok stale_bucket_run
    by (auto simp del: upload_loop_gcs.simps)
qed

text \<open>
  As stated the claim fails twice.  A document that has a ledger entry and has lost its
  fingerprint keeps that entry after the run, so the entry is not left unset; and a
  document with no entry and no fingerprint is printed as \<open>[NEW]\<close> on the next run,
  not as \<open>[CHANGED]\<close>.
\<close>

theorem C3_entry_kept_or_new_counterexample:
  "incremental_index_gcs example_client stale_bucket = Some (Inr (), stale_bucket_after)
   \<and> load_index_state_from_gcs stale_bucket_after
     = Inr [(''PdfDocuments/a.txt'', ''h1''), (''PdfDocuments/c.pdf'', ''h0'')]
   \<and> incremental_index_gcs example_client example_bucket = Some (Inr (), example_bucket_after)
   \<and> incremental_index_gcs example_client example_bucket_after
     = Some (Inr (), example_bucket_after2)
   \<and> drop 2 (printed example_bucket_after2)
     = [(NEW, ''PdfDocuments/c.pdf''), (SKIP, ''PdfDocuments/a.txt'')]"
  using stale_bucket_run stale_bucket_after_ledger example_bucket_run example_bucket_run2
  by (simp add: example_bucket_after2_def example_bucket_after_def)

section \<open>Properties of the query endpoint\<close>

lemma format_citation_spec:
  "format_citation (py_or (rc_title rc) ''Unknown source'') (py_or (rc_text rc) '''')
     = spec_citation rc"
  by (simp add: format_citation_def spec_citation_def py_or_def split: option.splits)

lemma chunk_loop_map:
  "chunk_loop cits chunks
     = cits @ map spec_citation (List.map_filter retrieved_context chunks)"
proof (induction chunks arbitrary: cits)
  case Nil
  show ?case by (simp add: List.map_filter_simps)
next
  case (Cons chunk chunks)
  show ?case
    by (cases "retrieved_context chunk")
       (simp_all add: Cons.IH List.map_filter_simps format_citation_spec)
qed

lemma candidate_loop_map:
  "candidate_loop cits cs
     = cits @ map spec_citation (concat (map contexts_of_candidate cs))"
proof (induction cs arbitrary: cits)
  case Nil
  show ?case by simp
next
  case (Cons c cs)
  show ?case
  proof (cases "grounding_metadata c")
    case None
    then show ?thesis by (simp add: Cons.IH contexts_of_candidate_def)
  next
    case (Some gm)
    then show ?thesis
      by (cases "grounding_chunks gm")
         (simp_all add: Cons.IH contexts_of_candidate_def chunk_loop_map
                        List.map_filter_simps)
  qed
qed

lemma ask_question_remote_eq:
  "STORE_NAME \<noteq> [] \<Longrightarrow>
   ask_question_remote STORE_NAME g req = ask_question STORE_NAME g req"
  by (simp add: ask_question_remote_def ask_question_def)

lemma ask_question_citations:
  assumes "ask_question STORE_NAME g req = Inr resp"
  shows "\<exists>r. g ''gemini-2.5-flash'' (query req) [STORE_NAME] = Inr r
           \<and> citations resp = map spec_citation (contexts_of r)"
proof -
  from assms have ne: "STORE_NAME \<noteq> []"
    by (auto simp: ask_question_def split: if_splits)
  with assms obtain r where r: "g ''gemini-2.5-flash'' (query req) [STORE_NAME] = Inr r"
    by (cases "g ''gemini-2.5-flash'' (query req) [STORE_NAME]")
       (auto simp: ask_question_def)
  with assms ne have "citations resp = candidate_loop []
      (case candidates r of None \<Rightarrow> [] | Some l \<Rightarrow> l)"
    by (auto simp: ask_question_def Let_def)
  then have "citations resp = map spec_citation (contexts_of r)"
    by (cases "candidates r") (simp_all add: candidate_loop_map contexts_of_def)
  with r show ?thesis by blast
qed

text \<open>
  Claim C9.  Whenever \<open>POST /ask\<close> returns a response (in either application), the
  model's reply \<open>r\<close> was obtained and the citations are exactly the retrieved contexts
  of \<open>r\<close>, in order, each rendered as title (or the placeholder \<open>Unknown source\<close>),
  colon, space, and the snippet in double quotes.  A candidate without grounding
  metadata adds nothing to the citations, wherever it stands among the candidates, and
  the request still returns a response once the model has replied.
\<close>

theorem C9_citation_format:
  "(ask_question STORE_NAME g req = Inr resp \<or> ask_question_remote STORE_NAME g req = Inr resp
      \<longrightarrow> (\<exists>r. g ''gemini-2.5-flash'' (query req) [STORE_NAME] = Inr r
             \<and> citations resp = map spec_citation (contexts_of r)))
   \<and> (grounding_metadata c = None \<longrightarrow>
        candidate_loop cits (cs1 @ c # cs2) = candidate_loop cits (cs1 @ cs2))
   \<and> (STORE_NAME \<noteq> [] \<and> g ''gemini-2.5-flash'' (query req) [STORE_NAME] = Inr r0
        \<longrightarrow> (\<exists>resp0. ask_question STORE_NAME g req = Inr resp0
                    \<and> ask_question_remote STORE_NAME g req = Inr resp0))"
proof (intro conjI impI)
  assume a: "ask_question STORE_NAME g req = Inr resp
             \<or> ask_question_remote STORE_NAME g req = Inr resp"
  have "ask_question STORE_NAME g req = Inr resp"
  proof (cases "STORE_NAME = []")
    case True
    with a show ?thesis by (simp add: ask_question_def ask_question_remote_def)
  next
    case False
    with a show ?thesis by (simp add: ask_question_remote_eq)
  qed
  then show "\<exists>r. g ''gemini-2.5-flash'' (query req) [STORE_NAME] = Inr r
           \<and> citations resp = map spec_citation (contexts_of r)"
    by (rule ask_question_citations)
next
  assume "grounding_metadata c = None"
  then show "candidate_loop cits (cs1 @ c # cs2) = candidate_loop cits (cs1 @ cs2)"
    by (simp add: candidate_loop_map contexts_of_candidate_def)
next
  assume "STORE_NAME \<noteq> [] \<and> g ''gemini-2.5-flash'' (query req) [STORE_NAME] = Inr r0"
  then show "\<exists>resp0. ask_question STORE_NAME g req = Inr resp0
                    \<and> ask_question_remote STORE_NAME g req = Inr resp0"
    by (simp add: ask_question_def ask_question_remote_def Let_def)
qed

theorem C9_citation_format_witness:
  "ask_question ''stores/s1''
      (\<lambda>m q ns. Inr \<lparr>response_text = Some ''A'',
         candidates = Some [\<lparr>grounding_metadata = None\<rparr>,
           \<lparr>grounding_metadata = Some \<lparr>grounding_chunks = Some
              [\<lparr>retrieved_context = Some \<lparr>rc_title = None, rc_text = Some ''hi''\<rparr>\<rparr>,
               \<lparr>retrieved_context = None\<rparr>,
               \<lparr>retrieved_context = Some \<lparr>rc_title = Some ''a.txt'', rc_text = None\<rparr>\<rparr>]\<rparr>\<rparr>]\<rparr>)
      \<lparr>query = ''q''\<rparr>
     = Inr \<lparr>answer = ''A'',
            citations = [''Unknown source: '' @ [CHR 0x22] @ ''hi'' @ [CHR 0x22],
                         ''a.txt: '' @ [CHR 0x22, CHR 0x22]]\<rparr>
   \<and> candidate_loop [''c''] ([] @ \<lparr>grounding_metadata = None\<rparr> # []) = [''c'']"
  using C9_citation_format
    [of "''stores/s1''"
        "\<lambda>m q ns. Inr \<lparr>response_text = Some ''A'',
         candidates = Some [\<lparr>grounding_metadata = None\<rparr>,
           \<lparr>grounding_metadata = Some \<lparr>grounding_chunks = Some
              [\<lparr>retrieved_context = Some \<lparr>rc_title = None, rc_text = Some ''hi''\<rparr>\<rparr>,
               \<lparr>retrieved_context = None\<rparr>,
               \<lparr>retrieved_context = Some \<lparr>rc_title = Some ''a.txt'', rc_text = None\<rparr>\<rparr>]\<rparr>\<rparr>]\<rparr>"
        "\<lparr>query = ''q''\<rparr>" _ "\<lparr>grounding_metadata = None\<rparr>" "[''c'']" "[]" "[]"]
  by (simp add: ask_question_def py_or_def format_citation_def)

end
